theory Spec2Isabelle
  imports
    Complex_Main
    "HOL-Library.Word"
    "HOL-Library.Char_ord"
    "HOL-Library.List_Lexorder"
    "HOL-Library.Multiset"
begin

section \<open>Data model\<close>

text \<open>
  Go strings are byte sequences and are modelled as \<open>string\<close> (a list of 8-bit
  characters). With \<open>Char_ord\<close> and \<open>List_Lexorder\<close> the order \<open><\<close> on \<open>string\<close>
  is the bytewise lexicographic order, which is what Go's \<open><\<close> on strings computes.

  \<open>int64\<close> sizes are \<open>64 word\<close>: \<open>+\<close> wraps as Go's does, \<open>sint\<close> reads the signed
  value. Object counts are \<open>int\<close>: every counter of the program is incremented at most
  once per element of a slice, and a Go slice has fewer than \<open>2 ^ 63\<close> elements, so the
  \<open>int64\<close> counters never wrap.

  A \<open>time.Time\<close> is modelled by the instant it denotes, an \<open>int\<close> counted from the zero
  value of \<open>time.Time\<close>; \<open>Before\<close> and \<open>After\<close> compare instants.
\<close>

type_synonym int64 = "64 word"
type_synonym time = int

text \<open>
  The records of package \<open>types\<close>. Field names are global in a theory, so a name that
  two structs share is kept for one of them only: \<open>StorageClassStats.Size\<close> is
  \<open>SizeBytes\<close>, \<open>BucketSummary.TotalSize\<close> is \<open>TotalBytes\<close>, the fields \<open>Min\<close>, \<open>Max\<close>
  and \<open>Count\<close> of \<open>SizeBucket\<close> are \<open>BucketMin\<close>, \<open>BucketMax\<close> and \<open>BucketCount\<close>
  (\<open>Min\<close> and \<open>Max\<close> are constants of HOL), and the field \<open>MetadataSummary.DateRange\<close> is
  \<open>DateRangeOf\<close>. \<open>BucketSummary.EstimatedCost\<close> is a
  \<open>float64\<close> and is left out: binary floating point is not part of this development.
\<close>

record ObjectMetadata =
  Key :: string
  Size :: int64
  LastModified :: time
  StorageClass :: string
  ETag :: string

record Partition =
  Prefix :: string
  Pattern :: string
  ObjectCount :: int
  TotalSize :: int64
  Examples :: "string list"

record StorageClassStats =
  Count :: int
  SizeBytes :: int64

record BucketSummary =
  Name :: string
  Region :: string
  CreationDate :: time
  TotalObjects :: int
  TotalBytes :: int64
  StorageClasses :: "string \<rightharpoonup> StorageClassStats"

record SizeBucket =
  Label :: string
  BucketMin :: int64
  BucketMax :: int64
  BucketCount :: int

record DateRange =
  Earliest :: time
  Latest :: time

record MetadataSummary =
  Objects :: "ObjectMetadata list"
  FileTypeStats :: "string \<rightharpoonup> int"
  SizeDistribution :: "SizeBucket list"
  DateRangeOf :: DateRange

section \<open>Metadata analyzer (metadata.go)\<close>

subsection \<open>Library functions used by \<open>getFileExtension\<close>\<close>

text \<open>
  \<open>filepath.Base\<close>, \<open>filepath.Ext\<close>, \<open>strings.HasSuffix\<close> and \<open>strings.TrimPrefix\<close>
  belong to the Go standard library. They are modelled after their implementation for a
  platform whose only path separator is \<open>/\<close>.

  \<open>strings.ToLower\<close> maps every Unicode letter to its lower case, by tables that are not
  part of the program. It is not modelled: the functions that call it take it as the
  parameter \<open>toLower\<close>, and what is proved of them holds for every function in its place.
\<close>

definition IsPathSeparator :: "char \<Rightarrow> bool" where
  "IsPathSeparator c = (c = CHR ''/'')"

text \<open>Go: \<open>for len(path) > 0 && IsPathSeparator(path[len(path)-1]) { path = path[:len(path)-1] }\<close>\<close>

definition stripTrailingSlashes :: "string \<Rightarrow> string" where
  "stripTrailingSlashes path = rev (dropWhile IsPathSeparator (rev path))"

text \<open>Go: the part of \<open>path\<close> after its last separator (all of it when there is none).\<close>

definition lastElement :: "string \<Rightarrow> string" where
  "lastElement path = rev (takeWhile (\<lambda>c. \<not> IsPathSeparator c) (rev path))"

definition Base :: "string \<Rightarrow> string" where
  "Base path =
     (if path = [] then ''.''
      else let p = lastElement (stripTrailingSlashes path)
           in if p = [] then ''/'' else p)"

text \<open>
  Go: \<open>for i := len(path)-1; i >= 0 && !IsPathSeparator(path[i]); i-- { if path[i] == '.' { return path[i:] } }; return ""\<close>.
  The recursion runs over the reversed path; \<open>acc\<close> is the text already passed.
\<close>

fun ExtRev :: "string \<Rightarrow> string \<Rightarrow> string" where
  "ExtRev [] acc = []"
| "ExtRev (c # cs) acc =
     (if IsPathSeparator c then []
      else if c = CHR ''.'' then c # acc
      else ExtRev cs (c # acc))"

definition Ext :: "string \<Rightarrow> string" where
  "Ext path = ExtRev (rev path) []"

definition HasSuffix :: "string \<Rightarrow> string \<Rightarrow> bool" where
  "HasSuffix s suffix =
     (length suffix \<le> length s \<and> drop (length s - length suffix) s = suffix)"

definition TrimPrefix :: "string \<Rightarrow> string \<Rightarrow> string" where
  "TrimPrefix s pre = (if take (length pre) s = pre then drop (length pre) s else s)"

subsection \<open>getFileExtension\<close>

definition getFileExtension :: "(string \<Rightarrow> string) \<Rightarrow> string \<Rightarrow> string" where
  "getFileExtension toLower key =
     (let base = Base key;
          ext = Ext base
      in if ext = [] then
           (if HasSuffix key ''/'' then ''[directory]'' else ''[no extension]'')
         else toLower (TrimPrefix ext ''.''))"

subsection \<open>generateSizeDistribution\<close>

definition initialBuckets :: "SizeBucket list" where
  "initialBuckets =
     [\<lparr>Label = ''0-1KB'', BucketMin = 0, BucketMax = 1024, BucketCount = 0\<rparr>,
      \<lparr>Label = ''1KB-1MB'', BucketMin = 1024, BucketMax = 1024 * 1024, BucketCount = 0\<rparr>,
      \<lparr>Label = ''1MB-100MB'', BucketMin = 1024 * 1024, BucketMax = 100 * 1024 * 1024, BucketCount = 0\<rparr>,
      \<lparr>Label = ''100MB-1GB'', BucketMin = 100 * 1024 * 1024, BucketMax = 1024 * 1024 * 1024,
         BucketCount = 0\<rparr>,
      \<lparr>Label = ''1GB+'', BucketMin = 1024 * 1024 * 1024, BucketMax = - 1, BucketCount = 0\<rparr>]"

text \<open>The test of the inner loop for one bucket; comparisons of \<open>int64\<close> are signed.\<close>

definition bucketAccepts :: "SizeBucket \<Rightarrow> int64 \<Rightarrow> bool" where
  "bucketAccepts b sz =
     (if BucketMax b = - 1 then sint (BucketMin b) \<le> sint sz
      else sint (BucketMin b) \<le> sint sz \<and> sint sz < sint (BucketMax b))"

text \<open>
  The inner loop \<open>for i := range buckets\<close>: the first bucket that accepts the size is
  incremented and the loop is left (\<open>break\<close>); a size no bucket accepts changes nothing.
\<close>

fun placeInBucket :: "int64 \<Rightarrow> SizeBucket list \<Rightarrow> SizeBucket list" where
  "placeInBucket sz [] = []"
| "placeInBucket sz (b # bs) =
     (if bucketAccepts b sz then b\<lparr>BucketCount := BucketCount b + 1\<rparr> # bs
      else b # placeInBucket sz bs)"

definition generateSizeDistribution :: "ObjectMetadata list \<Rightarrow> SizeBucket list" where
  "generateSizeDistribution objects =
     foldl (\<lambda>buckets obj. placeInBucket (Size obj) buckets) initialBuckets objects"

subsection \<open>AnalyzeMetadata\<close>

text \<open>\<open>summary.FileTypeStats[ext]++\<close>: a missing key reads as 0.\<close>

definition incrementCount :: "(string \<rightharpoonup> int) \<Rightarrow> string \<Rightarrow> (string \<rightharpoonup> int)" where
  "incrementCount m k = m(k \<mapsto> (case m k of None \<Rightarrow> 0 | Some n \<Rightarrow> n) + 1)"

definition Before :: "time \<Rightarrow> time \<Rightarrow> bool" where
  "Before t u = (t < u)"

definition After :: "time \<Rightarrow> time \<Rightarrow> bool" where
  "After t u = (t > u)"

text \<open>The body of the loop \<open>for _, obj := range objects\<close> of \<open>AnalyzeMetadata\<close>.\<close>

definition analyzeObject ::
  "(string \<Rightarrow> string) \<Rightarrow> MetadataSummary \<Rightarrow> ObjectMetadata \<Rightarrow> MetadataSummary" where
  "analyzeObject toLower summary obj =
     (let ext = getFileExtension toLower (Key obj);
          s1 = summary\<lparr>FileTypeStats := incrementCount (FileTypeStats summary) ext\<rparr>;
          s2 = (if Before (LastModified obj) (Earliest (DateRangeOf s1))
                then s1\<lparr>DateRangeOf := (DateRangeOf s1)\<lparr>Earliest := LastModified obj\<rparr>\<rparr>
                else s1);
          s3 = (if After (LastModified obj) (Latest (DateRangeOf s2))
                then s2\<lparr>DateRangeOf := (DateRangeOf s2)\<lparr>Latest := LastModified obj\<rparr>\<rparr>
                else s2)
      in s3)"

text \<open>The zero value of \<open>time.Time\<close> is the origin of the time line.\<close>

definition zeroTime :: time where
  "zeroTime = 0"

definition AnalyzeMetadata :: "(string \<Rightarrow> string) \<Rightarrow> ObjectMetadata list \<Rightarrow> MetadataSummary" where
  "AnalyzeMetadata toLower objects =
     (let summary0 = \<lparr>Objects = objects, FileTypeStats = Map.empty, SizeDistribution = [],
                       DateRangeOf = \<lparr>Earliest = zeroTime, Latest = zeroTime\<rparr>\<rparr>;
          summary1 = (case objects of
                        [] \<Rightarrow> summary0
                      | o0 # _ \<Rightarrow> summary0\<lparr>DateRangeOf :=
                                     \<lparr>Earliest = LastModified o0, Latest = LastModified o0\<rparr>\<rparr>);
          summary2 = foldl (analyzeObject toLower) summary1 objects
      in summary2\<lparr>SizeDistribution := generateSizeDistribution objects\<rparr>)"

section \<open>Bucket analyzer (bucket.go)\<close>

text \<open>
  The listing service is outside the program. An entry of a listing page
  (\<open>s3types.Object\<close>) has pointer fields, which may be \<open>nil\<close>; \<open>aws.ToString\<close>,
  \<open>aws.ToInt64\<close>, \<open>aws.ToTime\<close> and \<open>aws.ToBool\<close> read a \<open>nil\<close> pointer as the zero value.
\<close>

record S3Object =
  ObjKey :: "string option"
  ObjSize :: "int64 option"
  ObjStorageClass :: string
  ObjLastModified :: "time option"
  ObjETag :: "string option"

record ListObjectsV2Output =
  Contents :: "S3Object list"
  IsTruncated :: "bool option"
  NextContinuationToken :: "string option"

datatype error = ServiceError string

text \<open>
  \<open>s3Client.ListObjectsV2\<close>: the answer of the service to a request with the given
  continuation token and \<open>MaxKeys\<close> (both optional).
\<close>

type_synonym s3client = "string option \<Rightarrow> int option \<Rightarrow> error + ListObjectsV2Output"

definition ToString :: "string option \<Rightarrow> string" where
  "ToString p = (case p of None \<Rightarrow> [] | Some s \<Rightarrow> s)"

definition ToInt64 :: "int64 option \<Rightarrow> int64" where
  "ToInt64 p = (case p of None \<Rightarrow> 0 | Some n \<Rightarrow> n)"

definition ToTime :: "time option \<Rightarrow> time" where
  "ToTime p = (case p of None \<Rightarrow> zeroTime | Some t \<Rightarrow> t)"

definition ToBool :: "bool option \<Rightarrow> bool" where
  "ToBool p = (case p of None \<Rightarrow> False | Some b \<Rightarrow> b)"

text \<open>
  The variables of \<open>listObjects\<close>: the summary behind the pointer it is given, the slice
  \<open>objects\<close> and \<open>processedCount\<close>.
\<close>

record ListState =
  summary :: BucketSummary
  objects :: "ObjectMetadata list"
  processedCount :: int

text \<open>\<open>stats := summary.StorageClasses[storageClass]\<close>: a missing class reads as the zero struct.\<close>

definition lookupStats :: "(string \<rightharpoonup> StorageClassStats) \<Rightarrow> string \<Rightarrow> StorageClassStats" where
  "lookupStats m c = (case m c of None \<Rightarrow> \<lparr>Count = 0, SizeBytes = 0\<rparr> | Some st \<Rightarrow> st)"

text \<open>The body of the loop \<open>for _, obj := range result.Contents\<close>.\<close>

definition processObject :: "ListState \<Rightarrow> S3Object \<Rightarrow> ListState" where
  "processObject st obj =
     (let key = ToString (ObjKey obj);
          size = ToInt64 (ObjSize obj);
          storageClass = (if ObjStorageClass obj = [] then ''STANDARD'' else ObjStorageClass obj);
          s = summary st;
          stats = lookupStats (StorageClasses s) storageClass;
          stats' = stats\<lparr>Count := Count stats + 1, SizeBytes := SizeBytes stats + size\<rparr>;
          s' = s\<lparr>TotalObjects := TotalObjects s + 1,
                 TotalBytes := TotalBytes s + size,
                 StorageClasses := (StorageClasses s)(storageClass \<mapsto> stats')\<rparr>
      in st\<lparr>summary := s',
             objects := objects st @
               [\<lparr>Key = key, Size = size, LastModified = ToTime (ObjLastModified obj),
                 StorageClass = storageClass, ETag = ToString (ObjETag obj)\<rparr>],
             processedCount := processedCount st + 1\<rparr>)"

definition processContents :: "ListState \<Rightarrow> S3Object list \<Rightarrow> ListState" where
  "processContents st contents = foldl processObject st contents"

text \<open>
  The loop \<open>for { ... }\<close> of \<open>listObjects\<close>. It ends when the limit is reached, when a
  request fails or when a page is not truncated; a service that goes on answering with
  truncated pages keeps it running, which is the value \<open>None\<close>.
\<close>

partial_function (option) listObjectsLoop ::
  "s3client \<Rightarrow> int \<Rightarrow> string option \<Rightarrow> ListState \<Rightarrow> (error + ListState) option" where
  "listObjectsLoop client limit continuationToken st =
     (if limit > 0 \<and> processedCount st \<ge> limit then Some (Inr st)
      else
        let remaining = limit - processedCount st;
            maxKeys = (if limit > 0 \<and> remaining < 1000 then Some remaining else None)
        in case client continuationToken maxKeys of
             Inl err \<Rightarrow> Some (Inl err)
           | Inr result \<Rightarrow>
               let st' = processContents st (Contents result)
               in if \<not> ToBool (IsTruncated result) then Some (Inr st')
                  else listObjectsLoop client limit (NextContinuationToken result) st')"

definition initialSummary :: "string \<Rightarrow> string \<Rightarrow> BucketSummary" where
  "initialSummary bucketName region =
     \<lparr>Name = bucketName, Region = region, CreationDate = zeroTime,
      TotalObjects = 0, TotalBytes = 0, StorageClasses = Map.empty\<rparr>"

definition listObjects ::
  "s3client \<Rightarrow> int \<Rightarrow> BucketSummary \<Rightarrow> (error + ListState) option" where
  "listObjects client limit s =
     listObjectsLoop client limit None \<lparr>summary = s, objects = [], processedCount = 0\<rparr>"

text \<open>
  \<open>AnalyzeBucket\<close> without the cost estimate. \<open>creationDate\<close> is the result of
  \<open>getBucketCreationDate\<close>, a request to the service.
\<close>

definition AnalyzeBucket ::
  "s3client \<Rightarrow> int \<Rightarrow> error + time \<Rightarrow> string \<Rightarrow> string
     \<Rightarrow> (error + BucketSummary \<times> ObjectMetadata list) option" where
  "AnalyzeBucket client limit creationDate bucketName region =
     (case creationDate of
        Inl err \<Rightarrow> Some (Inl err)
      | Inr created \<Rightarrow>
          (case listObjects client limit
                  ((initialSummary bucketName region)\<lparr>CreationDate := created\<rparr>) of
             None \<Rightarrow> None
           | Some (Inl err) \<Rightarrow> Some (Inl err)
           | Some (Inr st) \<Rightarrow> Some (Inr (summary st, objects st))))"

section \<open>Partition analyzer (partition.go)\<close>

subsection \<open>The regular expressions\<close>

text \<open>
  The six expressions of \<open>detectDatePartitions\<close> are sequences of literal characters and
  \<open>\d\<close> (an ASCII digit in Go's syntax); the capture groups are not read by the program.
  Such an expression matches texts of one length only, so the leftmost match that
  \<open>FindStringSubmatch\<close> returns as \<open>matches[0]\<close> is the match at the first position where
  the expression matches. All its characters are ASCII, so matching bytes and matching
  runes agree.
\<close>

datatype atom = Lit char | Digit

type_synonym regex = "atom list"

definition isDigit :: "char \<Rightarrow> bool" where
  "isDigit c = (CHR ''0'' \<le> c \<and> c \<le> CHR ''9'')"

fun atomMatches :: "atom \<Rightarrow> char \<Rightarrow> bool" where
  "atomMatches (Lit l) c = (c = l)"
| "atomMatches Digit c = isDigit c"

text \<open>Does the expression match at the start of the text?\<close>

fun matchHere :: "regex \<Rightarrow> string \<Rightarrow> bool" where
  "matchHere [] s = True"
| "matchHere (a # as) [] = False"
| "matchHere (a # as) (c # cs) = (atomMatches a c \<and> matchHere as cs)"

text \<open>\<open>matches[0]\<close> of \<open>regex.FindStringSubmatch(s)\<close>, or \<open>None\<close> when nothing matches.\<close>

fun FindString :: "regex \<Rightarrow> string \<Rightarrow> string option" where
  "FindString re [] = (if matchHere re [] then Some [] else None)"
| "FindString re (c # cs) =
     (if matchHere re (c # cs) then Some (take (length re) (c # cs)) else FindString re cs)"

definition lits :: "string \<Rightarrow> regex" where
  "lits s = map Lit s"

definition digits :: "nat \<Rightarrow> regex" where
  "digits n = replicate n Digit"

definition datePatterns :: "(string \<times> regex) list" where
  "datePatterns =
     [(''year=YYYY/month=MM/day=DD'',
         lits ''year='' @ digits 4 @ lits ''/month='' @ digits 2 @ lits ''/day='' @ digits 2),
      (''year=YYYY/month=MM'', lits ''year='' @ digits 4 @ lits ''/month='' @ digits 2),
      (''YYYY/MM/DD'', digits 4 @ lits ''/'' @ digits 2 @ lits ''/'' @ digits 2),
      (''YYYY/MM'', digits 4 @ lits ''/'' @ digits 2),
      (''YYYY-MM-DD'', digits 4 @ lits ''-'' @ digits 2 @ lits ''-'' @ digits 2),
      (''dt=YYYY-MM-DD'', lits ''dt='' @ digits 4 @ lits ''-'' @ digits 2 @ lits ''-'' @ digits 2)]"

subsection \<open>Grouping\<close>

text \<open>
  A \<open>map[string]*types.Partition\<close> is an association list with distinct keys, a new key
  going to the end. Both grouping loops run the same statement on their map:
  \<open>if partition, exists := m[k]; exists { ... } else { m[k] = &types.Partition{...} }\<close>.
\<close>

type_synonym partitionMap = "(string \<times> Partition) list"

definition addToPartition :: "Partition \<Rightarrow> ObjectMetadata \<Rightarrow> Partition" where
  "addToPartition part obj =
     part\<lparr>ObjectCount := ObjectCount part + 1,
          TotalSize := TotalSize part + Size obj,
          Examples := (if length (Examples part) < 3
                       then Examples part @ [Key obj]
                       else Examples part)\<rparr>"

definition recordObject ::
  "string \<Rightarrow> string \<Rightarrow> string \<Rightarrow> ObjectMetadata \<Rightarrow> partitionMap \<Rightarrow> partitionMap" where
  "recordObject k prefix patternName obj m =
     (case map_of m k of
        Some part \<Rightarrow>
          map (\<lambda>(k', p). if k' = k then (k', addToPartition part obj) else (k', p)) m
      | None \<Rightarrow>
          m @ [(k, \<lparr>Prefix = prefix, Pattern = patternName, ObjectCount = 1,
                     TotalSize = Size obj, Examples = [Key obj]\<rparr>)])"

text \<open>The body of the loop of \<open>groupByPattern\<close>.\<close>

definition groupStep :: "string \<Rightarrow> regex \<Rightarrow> partitionMap \<Rightarrow> ObjectMetadata \<Rightarrow> partitionMap" where
  "groupStep patternName re m obj =
     (case FindString re (Key obj) of
        None \<Rightarrow> m
      | Some prefix \<Rightarrow> recordObject prefix prefix patternName obj m)"

text \<open>
  \<open>sort.Slice\<close> with \<open>partitions[i].Prefix < partitions[j].Prefix\<close>: the prefixes of
  the partitions are the keys of the map and so are distinct, hence there is one sorted
  arrangement only, whatever the order in which the map is read and whatever the sorting
  algorithm. \<open>sort_key\<close> computes it.
\<close>

definition groupByPattern :: "ObjectMetadata list \<Rightarrow> string \<Rightarrow> regex \<Rightarrow> Partition list" where
  "groupByPattern objs patternName re =
     sort_key Prefix (map snd (foldl (groupStep patternName re) [] objs))"

subsection \<open>detectDatePartitions\<close>

text \<open>
  \<open>float64(totalMatched)/float64(len(objects)) > 0.5\<close>. Both numbers are object counts;
  below \<open>2 ^ 53\<close> the conversions are exact and the rounded quotient exceeds \<open>0.5\<close> exactly
  when the quotient of the integers does, so the test is written with exact division.
\<close>

definition coversMajority :: "int \<Rightarrow> nat \<Rightarrow> bool" where
  "coversMajority totalMatched n = (real_of_int totalMatched / real n > 0.5)"

text \<open>The loop \<open>for _, pattern := range patterns\<close>, and \<open>return nil\<close> after it.\<close>

fun tryPatterns :: "ObjectMetadata list \<Rightarrow> (string \<times> regex) list \<Rightarrow> Partition list" where
  "tryPatterns objs [] = []"
| "tryPatterns objs ((name, re) # rest) =
     (let partitions = groupByPattern objs name re
      in if length partitions > 0 \<and>
            coversMajority (foldl (\<lambda>total p. total + ObjectCount p) 0 partitions) (length objs)
         then partitions
         else tryPatterns objs rest)"

definition detectDatePartitions :: "ObjectMetadata list \<Rightarrow> Partition list" where
  "detectDatePartitions objs = tryPatterns objs datePatterns"

subsection \<open>detectHierarchicalPartitions\<close>

text \<open>\<open>strings.Split(s, "/")\<close>: the pieces of \<open>s\<close> between the separators, at least one.\<close>

fun Split :: "string \<Rightarrow> char \<Rightarrow> string list" where
  "Split [] sep = [[]]"
| "Split (c # cs) sep =
     (if c = sep then [] # Split cs sep
      else (case Split cs sep of
              [] \<Rightarrow> [[c]]
            | part # parts \<Rightarrow> (c # part) # parts))"

definition hierarchicalPattern :: string where
  "hierarchicalPattern = ''hierarchical (top-level prefix)''"

definition prefixStep :: "partitionMap \<Rightarrow> ObjectMetadata \<Rightarrow> partitionMap" where
  "prefixStep m obj =
     (let parts = Split (Key obj) CHR ''/''
      in if length parts > 1
         then (let prefix = hd parts
               in recordObject prefix (prefix @ ''/'') hierarchicalPattern obj m)
         else m)"

definition prefixMap :: "ObjectMetadata list \<Rightarrow> partitionMap" where
  "prefixMap objs = foldl prefixStep [] objs"

text \<open>
  What \<open>sort.Slice(xs, less)\<close> guarantees: the slice is rearranged so that no element
  is \<open>less\<close> than one before it. The sort is not stable and a Go map is read in an order
  that changes from run to run, so elements that \<open>less\<close> does not separate may come out in
  any order.
\<close>

definition sortedBy :: "('a \<Rightarrow> 'a \<Rightarrow> bool) \<Rightarrow> 'a list \<Rightarrow> bool" where
  "sortedBy lessFn xs = sorted_wrt (\<lambda>x y. \<not> lessFn y x) xs"

text \<open>
  \<open>detectHierarchicalPartitions objs result\<close>: the function may return \<open>result\<close>. With at
  most one group it returns \<open>nil\<close>; otherwise the values of the map, sorted with
  \<open>partitions[i].ObjectCount > partitions[j].ObjectCount\<close>.
\<close>

definition detectHierarchicalPartitions :: "ObjectMetadata list \<Rightarrow> Partition list \<Rightarrow> bool" where
  "detectHierarchicalPartitions objs result =
     (let m = prefixMap objs
      in if length m \<le> 1 then result = []
         else mset result = mset (map snd m) \<and>
              sortedBy (\<lambda>p q. ObjectCount p > ObjectCount q) result)"

subsection \<open>AnalyzePartitions\<close>

text \<open>
  \<open>AnalyzePartitions objs result\<close>: the function may return \<open>result\<close>. The slice
  \<open>partitions\<close> holds the date partitions; the hierarchical partitions are appended to it
  only when it is empty, so the result is then what \<open>detectHierarchicalPartitions\<close>
  returns.
\<close>

definition AnalyzePartitions :: "ObjectMetadata list \<Rightarrow> Partition list \<Rightarrow> bool" where
  "AnalyzePartitions objs result =
     (if length objs = 0 then result = []
      else let datePartitions = detectDatePartitions objs
           in if length datePartitions = 0
              then detectHierarchicalPartitions objs result
              else result = datePartitions)"

section \<open>Notions of the specification\<close>

subsection \<open>Example objects\<close>

definition mkObject :: "string \<Rightarrow> int64 \<Rightarrow> time \<Rightarrow> ObjectMetadata" where
  "mkObject k sz t =
     \<lparr>Key = k, Size = sz, LastModified = t, StorageClass = ''STANDARD'', ETag = []\<rparr>"

subsection \<open>Lower case of ASCII text\<close>

text \<open>
  What \<open>strings.ToLower\<close> returns for a text of ASCII characters: the bytes \<open>A\<close>..\<open>Z\<close>
  become \<open>a\<close>..\<open>z\<close>, all others stay. It is used for examples only.
\<close>

definition lowerByte :: "char \<Rightarrow> char" where
  "lowerByte c =
     (if CHR ''A'' \<le> c \<and> c \<le> CHR ''Z'' then char_of (of_char c + (32::nat)) else c)"

definition asciiLower :: "string \<Rightarrow> string" where
  "asciiLower s = map lowerByte s"

subsection \<open>Size histogram\<close>

text \<open>
  The five ranges of the specification, \<open>[0,1KiB)\<close>, \<open>[1KiB,1MiB)\<close>, \<open>[1MiB,100MiB)\<close>,
  \<open>[100MiB,1GiB)\<close> and \<open>[1GiB,\<infinity>)\<close>: the number of the range a size of at least 0 lies in.
\<close>

definition histogramIndex :: "int \<Rightarrow> nat" where
  "histogramIndex n =
     (if n < 1024 then 0
      else if n < 1024 * 1024 then 1
      else if n < 100 * 1024 * 1024 then 2
      else if n < 1024 * 1024 * 1024 then 3
      else 4)"

text \<open>How many objects have their size in range \<open>i\<close>.\<close>

definition countInBucket :: "nat \<Rightarrow> ObjectMetadata list \<Rightarrow> int" where
  "countInBucket i objs = int (length (filter (\<lambda>obj. histogramIndex (sint (Size obj)) = i) objs))"

text \<open>The five buckets of the program with the given counts.\<close>

definition withCounts :: "int list \<Rightarrow> SizeBucket list" where
  "withCounts cs = map (\<lambda>(b, c). b\<lparr>BucketCount := c\<rparr>) (zip initialBuckets cs)"

subsection \<open>Totals of the bucket summary\<close>

text \<open>The object record that \<open>listObjects\<close> keeps for an entry of a listing page.\<close>

definition recordOf :: "S3Object \<Rightarrow> ObjectMetadata" where
  "recordOf obj =
     \<lparr>Key = ToString (ObjKey obj), Size = ToInt64 (ObjSize obj),
      LastModified = ToTime (ObjLastModified obj),
      StorageClass = (if ObjStorageClass obj = [] then ''STANDARD'' else ObjStorageClass obj),
      ETag = ToString (ObjETag obj)\<rparr>"

text \<open>The variables of \<open>listObjects\<close> before its loop.\<close>

definition initialState :: "BucketSummary \<Rightarrow> ListState" where
  "initialState s = \<lparr>summary = s, objects = [], processedCount = 0\<rparr>"

text \<open>Count and accumulated size of the objects of storage class \<open>c\<close>.\<close>

definition classStats :: "string \<Rightarrow> ObjectMetadata list \<Rightarrow> StorageClassStats" where
  "classStats c objs =
     \<lparr>Count = int (length (filter (\<lambda>obj. StorageClass obj = c) objs)),
      SizeBytes = sum_list (map Size (filter (\<lambda>obj. StorageClass obj = c) objs))\<rparr>"

text \<open>
  The totals invariant: the totals of the summary are the number and the accumulated size
  of the objects and also the sums of the per-class counts and sizes; the classes of the
  summary are the classes of the objects, each with the statistics of its objects. Sizes
  are added as \<open>int64\<close>.
\<close>

definition totalsAgree :: "BucketSummary \<Rightarrow> ObjectMetadata list \<Rightarrow> bool" where
  "totalsAgree s objs =
     (finite (dom (StorageClasses s)) \<and>
      TotalObjects s = int (length objs) \<and>
      TotalObjects s = (\<Sum>c\<in>dom (StorageClasses s). Count (the (StorageClasses s c))) \<and>
      TotalBytes s = sum_list (map Size objs) \<and>
      TotalBytes s = (\<Sum>c\<in>dom (StorageClasses s). SizeBytes (the (StorageClasses s c))) \<and>
      dom (StorageClasses s) = StorageClass ` set objs \<and>
      (\<forall>c\<in>dom (StorageClasses s). StorageClasses s c = Some (classStats c objs)))"


text \<open>A listing service that answers with two pages, and what the analysis of it returns.\<close>

definition examplePage1 :: ListObjectsV2Output where
  "examplePage1 =
     \<lparr>Contents = [\<lparr>ObjKey = Some ''logs/a.txt'', ObjSize = Some 10, ObjStorageClass = [],
                    ObjLastModified = Some 100, ObjETag = Some ''e1''\<rparr>],
      IsTruncated = Some True, NextContinuationToken = Some ''page2''\<rparr>"

definition examplePage2 :: ListObjectsV2Output where
  "examplePage2 =
     \<lparr>Contents = [\<lparr>ObjKey = Some ''logs/b.txt'', ObjSize = Some 5, ObjStorageClass = ''GLACIER'',
                    ObjLastModified = Some 200, ObjETag = None\<rparr>],
      IsTruncated = Some False, NextContinuationToken = None\<rparr>"

definition exampleClient :: s3client where
  "exampleClient token maxKeys = (if token = None then Inr examplePage1 else Inr examplePage2)"

definition exampleObjects :: "ObjectMetadata list" where
  "exampleObjects =
     [\<lparr>Key = ''logs/a.txt'', Size = 10, LastModified = 100, StorageClass = ''STANDARD'',
       ETag = ''e1''\<rparr>,
      \<lparr>Key = ''logs/b.txt'', Size = 5, LastModified = 200, StorageClass = ''GLACIER'',
       ETag = []\<rparr>]"

definition exampleSummary :: BucketSummary where
  "exampleSummary =
     \<lparr>Name = ''bucket'', Region = ''eu-west-1'', CreationDate = 7, TotalObjects = 2,
      TotalBytes = 15,
      StorageClasses = [''STANDARD'' \<mapsto> \<lparr>Count = 1, SizeBytes = 10\<rparr>,
                        ''GLACIER'' \<mapsto> \<lparr>Count = 1, SizeBytes = 5\<rparr>]\<rparr>"

subsection \<open>Groups of objects\<close>

text \<open>The partition of a group: its prefix and pattern name, the number and the accumulated
  \<open>int64\<close> size of its members and the keys of the first three of them.\<close>

definition groupOf :: "string \<Rightarrow> string \<Rightarrow> ObjectMetadata list \<Rightarrow> Partition" where
  "groupOf name pfx members =
     \<lparr>Prefix = pfx, Pattern = name, ObjectCount = int (length members),
      TotalSize = sum_list (map Size members), Examples = take 3 (map Key members)\<rparr>"

text \<open>The shape that the bodies of the two grouping loops share: \<open>keyOf\<close> gives the map key
  of an object, or \<open>None\<close> for an object that is skipped; \<open>pfx\<close> gives the prefix recorded
  for a key.\<close>

definition groupingStep ::
  "(ObjectMetadata \<Rightarrow> string option) \<Rightarrow> (string \<Rightarrow> string) \<Rightarrow> string
     \<Rightarrow> partitionMap \<Rightarrow> ObjectMetadata \<Rightarrow> partitionMap" where
  "groupingStep keyOf pfx name m obj =
     (case keyOf obj of None \<Rightarrow> m | Some k \<Rightarrow> recordObject k (pfx k) name obj m)"

text \<open>The objects with map key \<open>k\<close>, in the order of the collection.\<close>

definition membersOf :: "(ObjectMetadata \<Rightarrow> string option) \<Rightarrow> string \<Rightarrow> ObjectMetadata list
     \<Rightarrow> ObjectMetadata list" where
  "membersOf keyOf k objs = filter (\<lambda>obj. keyOf obj = Some k) objs"

text \<open>The map holds one entry for each key that has members, the group of these members.\<close>

definition groupsOf ::
  "(ObjectMetadata \<Rightarrow> string option) \<Rightarrow> (string \<Rightarrow> string) \<Rightarrow> string
     \<Rightarrow> ObjectMetadata list \<Rightarrow> partitionMap \<Rightarrow> bool" where
  "groupsOf keyOf pfx name objs m =
     (distinct (map fst m) \<and>
      (\<forall>k. map_of m k =
         (if membersOf keyOf k objs = [] then None
          else Some (groupOf name (pfx k) (membersOf keyOf k objs)))))"

text \<open>The objects whose key contains a match of the expression.\<close>

definition matched :: "regex \<Rightarrow> ObjectMetadata list \<Rightarrow> ObjectMetadata list" where
  "matched re objs = filter (\<lambda>obj. FindString re (Key obj) \<noteq> None) objs"

text \<open>Coverage: objects matched by the pattern divided by the number of objects.\<close>

definition coverage :: "regex \<Rightarrow> ObjectMetadata list \<Rightarrow> real" where
  "coverage re objs = real (length (matched re objs)) / real (length objs)"

text \<open>The matched text of the key of an object.\<close>

definition matchKey :: "regex \<Rightarrow> ObjectMetadata \<Rightarrow> string option" where
  "matchKey re obj = FindString re (Key obj)"

text \<open>The sum of the object counts of a map.\<close>

definition totalCount :: "partitionMap \<Rightarrow> int" where
  "totalCount m = sum_list (map (\<lambda>e. ObjectCount (snd e)) m)"

subsection \<open>Top-level prefixes\<close>

text \<open>The text before the first \<open>/\<close> of the key, for a key that contains a \<open>/\<close>.\<close>

definition topLevelKey :: "ObjectMetadata \<Rightarrow> string option" where
  "topLevelKey obj =
     (if CHR ''/'' \<in> set (Key obj) then Some (takeWhile (\<lambda>c. c \<noteq> CHR ''/'') (Key obj))
      else None)"

text \<open>The top-level prefixes of a collection.\<close>

definition topLevelPrefixes :: "ObjectMetadata list \<Rightarrow> string set" where
  "topLevelPrefixes objs = {k. membersOf topLevelKey k objs \<noteq> []}"

text \<open>The group of a top-level prefix.\<close>

definition hierarchicalGroup :: "ObjectMetadata list \<Rightarrow> string \<Rightarrow> Partition" where
  "hierarchicalGroup objs k =
     groupOf hierarchicalPattern (k @ ''/'') (membersOf topLevelKey k objs)"


subsection \<open>Expressions and examples\<close>


text \<open>The expressions of \<open>YYYY/MM/DD\<close>, \<open>YYYY-MM-DD\<close> and \<open>dt=YYYY-MM-DD\<close>.\<close>

definition ymdSlashRegex :: regex where
  "ymdSlashRegex = digits 4 @ lits ''/'' @ digits 2 @ lits ''/'' @ digits 2"

definition ymdDashRegex :: regex where
  "ymdDashRegex = digits 4 @ lits ''-'' @ digits 2 @ lits ''-'' @ digits 2"

definition dtRegex :: regex where
  "dtRegex = lits ''dt='' @ digits 4 @ lits ''-'' @ digits 2 @ lits ''-'' @ digits 2"

text \<open>Example collections.\<close>

definition priorityExample :: "ObjectMetadata list" where
  "priorityExample =
     [mkObject ''year=2023/month=01/day=16/b.json'' 20 2,
      mkObject ''notes.txt'' 1 3,
      mkObject ''year=2023/month=01/day=15/a.json'' 10 1,
      mkObject ''year=2023/month=01/day=16/c.json'' 30 4]"

definition halfExample :: "ObjectMetadata list" where
  "halfExample = [mkObject ''2023/01/15/a.csv'' 10 1, mkObject ''notes.txt'' 1 2]"

text \<open>A collection without dates, and the partitions expected for it.\<close>

definition hierarchyExample :: "ObjectMetadata list" where
  "hierarchyExample =
     [mkObject ''tmp/x'' 1 1, mkObject ''logs/a'' 2 2, mkObject ''README'' 3 3,
      mkObject ''logs/b'' 4 4, mkObject ''misc/z'' 5 5, mkObject ''logs/c/d'' 6 6,
      mkObject ''tmp/y'' 7 7]"

definition hierarchyResult :: "Partition list" where
  "hierarchyResult =
     [\<lparr>Prefix = ''logs/'', Pattern = ''hierarchical (top-level prefix)'', ObjectCount = 3,
       TotalSize = 12, Examples = [''logs/a'', ''logs/b'', ''logs/c/d'']\<rparr>,
      \<lparr>Prefix = ''tmp/'', Pattern = ''hierarchical (top-level prefix)'', ObjectCount = 2,
       TotalSize = 8, Examples = [''tmp/x'', ''tmp/y'']\<rparr>,
      \<lparr>Prefix = ''misc/'', Pattern = ''hierarchical (top-level prefix)'', ObjectCount = 1,
       TotalSize = 5, Examples = [''misc/z'']\<rparr>]"

definition dtExample :: "ObjectMetadata list" where
  "dtExample =
     [mkObject ''events/dt=2023-01-15/a.parquet'' 10 1,
      mkObject ''events/dt=2023-01-16/b.parquet'' 20 2,
      mkObject ''events/_SUCCESS'' 0 3]"

text \<open>A listing page without entries.\<close>

definition emptyPage :: ListObjectsV2Output where
  "emptyPage = \<lparr>Contents = [], IsTruncated = Some False, NextContinuationToken = None\<rparr>"

section \<open>Properties of the metadata analyzer\<close>

subsection \<open>Size histogram\<close>

lemma withCounts_zero: "initialBuckets = withCounts [0, 0, 0, 0, 0]"
  by (simp add: withCounts_def initialBuckets_def)

lemma placeInBucket_withCounts:
  assumes "0 \<le> sint sz"
  shows "placeInBucket sz (withCounts [c0, c1, c2, c3, c4]) =
         withCounts (map (\<lambda>(i, c). if histogramIndex (sint sz) = i then c + 1 else c)
                       (zip [0, 1, 2, 3, 4] [c0, c1, c2, c3, c4]))"
  using assms
  by (simp add: withCounts_def initialBuckets_def bucketAccepts_def histogramIndex_def)

lemma foldl_placeInBucket:
  assumes "\<forall>obj\<in>set objs. 0 \<le> sint (Size obj)"
  shows "foldl (\<lambda>buckets obj. placeInBucket (Size obj) buckets)
           (withCounts [c0, c1, c2, c3, c4]) objs =
         withCounts [c0 + countInBucket 0 objs, c1 + countInBucket 1 objs,
                     c2 + countInBucket 2 objs, c3 + countInBucket 3 objs,
                     c4 + countInBucket 4 objs]"
  using assms
proof (induction objs arbitrary: c0 c1 c2 c3 c4)
  case Nil
  then show ?case by (simp add: countInBucket_def)
next
  case (Cons obj objs)
  have nonneg: "0 \<le> sint (Size obj)" and rest: "\<forall>x\<in>set objs. 0 \<le> sint (Size x)"
    using Cons.prems by simp_all
  show ?case
    by (simp add: placeInBucket_withCounts [OF nonneg] Cons.IH [OF rest] countInBucket_def
        add.assoc)
qed

lemma generateSizeDistribution_counts:
  assumes "\<forall>obj\<in>set objs. 0 \<le> sint (Size obj)"
  shows "generateSizeDistribution objs =
         withCounts [countInBucket 0 objs, countInBucket 1 objs, countInBucket 2 objs,
                     countInBucket 3 objs, countInBucket 4 objs]"
  unfolding generateSizeDistribution_def withCounts_zero
  by (simp add: foldl_placeInBucket [OF assms])

lemma histogramIndex_less: "histogramIndex n < 5"
  by (simp add: histogramIndex_def)

lemma countInBucket_total:
  "countInBucket 0 objs + countInBucket 1 objs + countInBucket 2 objs +
   countInBucket 3 objs + countInBucket 4 objs = int (length objs)"
proof (induction objs)
  case Nil
  then show ?case by (simp add: countInBucket_def)
next
  case (Cons obj objs)
  have "histogramIndex (sint (Size obj)) \<in> {0, 1, 2, 3, 4}"
    by (simp add: histogramIndex_def)
  with Cons show ?case
    by (auto simp add: countInBucket_def)
qed

lemma bucketAccepts_index:
  assumes "0 \<le> sint sz" and "i < 5"
  shows "bucketAccepts (initialBuckets ! i) sz \<longleftrightarrow> histogramIndex (sint sz) = i"
proof -
  from \<open>i < 5\<close> have "i = 0 \<or> i = 1 \<or> i = 2 \<or> i = 3 \<or> i = 4" by arith
  with assms(1) show ?thesis
    by (auto simp add: initialBuckets_def bucketAccepts_def histogramIndex_def)
qed

lemma bucketAccepts_unique:
  assumes "0 \<le> sint sz"
  shows "\<exists>!i. i < length initialBuckets \<and> bucketAccepts (initialBuckets ! i) sz"
proof -
  have len: "length initialBuckets = 5" by (simp add: initialBuckets_def)
  show ?thesis
  proof (rule ex1I [where a = "histogramIndex (sint sz)"])
    show "histogramIndex (sint sz) < length initialBuckets \<and>
          bucketAccepts (initialBuckets ! histogramIndex (sint sz)) sz"
      using bucketAccepts_index [OF assms histogramIndex_less] histogramIndex_less len by simp
  next
    fix i assume "i < length initialBuckets \<and> bucketAccepts (initialBuckets ! i) sz"
    then show "i = histogramIndex (sint sz)"
      using bucketAccepts_index [OF assms, of i] len by simp
  qed
qed

text \<open>
  C4: when all sizes are at least 0, the count of each of the five buckets is the number
  of objects whose size lies in the range of the specification with that number, the
  counts add up to the number of objects, every object is accepted by exactly one bucket,
  a size of 1024 is counted in the second bucket, and the upper bound of each bounded
  bucket is rejected by that bucket and accepted by the next.
\<close>

theorem histogram_partition:
  assumes "\<forall>obj\<in>set objs. 0 \<le> sint (Size obj)"
  shows "map BucketCount (generateSizeDistribution objs) =
           [countInBucket 0 objs, countInBucket 1 objs, countInBucket 2 objs,
            countInBucket 3 objs, countInBucket 4 objs]
         \<and> sum_list (map BucketCount (generateSizeDistribution objs)) = int (length objs)
         \<and> (\<forall>obj\<in>set objs.
              \<exists>!i. i < length initialBuckets \<and> bucketAccepts (initialBuckets ! i) (Size obj))
         \<and> (\<forall>obj. Size obj = 1024 \<longrightarrow>
              map BucketCount (generateSizeDistribution [obj]) = [0, 1, 0, 0, 0])
         \<and> (\<forall>i<4. \<not> bucketAccepts (initialBuckets ! i) (BucketMax (initialBuckets ! i))
                   \<and> bucketAccepts (initialBuckets ! Suc i) (BucketMax (initialBuckets ! i)))"
proof -
  have counts: "map BucketCount (generateSizeDistribution objs) =
           [countInBucket 0 objs, countInBucket 1 objs, countInBucket 2 objs,
            countInBucket 3 objs, countInBucket 4 objs]"
    by (simp add: generateSizeDistribution_counts [OF assms] withCounts_def initialBuckets_def)
  have total: "sum_list (map BucketCount (generateSizeDistribution objs)) = int (length objs)"
    using countInBucket_total [of objs] by (simp add: counts)
  have one: "\<forall>obj\<in>set objs.
              \<exists>!i. i < length initialBuckets \<and> bucketAccepts (initialBuckets ! i) (Size obj)"
    using assms bucketAccepts_unique by blast
  have boundary: "\<forall>obj. Size obj = 1024 \<longrightarrow>
              map BucketCount (generateSizeDistribution [obj]) = [0, 1, 0, 0, 0]"
    by (simp add: generateSizeDistribution_def initialBuckets_def bucketAccepts_def)
  have upper: "\<forall>i<4. \<not> bucketAccepts (initialBuckets ! i) (BucketMax (initialBuckets ! i))
                   \<and> bucketAccepts (initialBuckets ! Suc i) (BucketMax (initialBuckets ! i))"
  proof (intro allI impI)
    fix i :: nat assume "i < 4"
    then have "i = 0 \<or> i = 1 \<or> i = 2 \<or> i = 3" by arith
    then show "\<not> bucketAccepts (initialBuckets ! i) (BucketMax (initialBuckets ! i))
                   \<and> bucketAccepts (initialBuckets ! Suc i) (BucketMax (initialBuckets ! i))"
      by (auto simp add: initialBuckets_def bucketAccepts_def)
  qed
  from counts total one boundary upper show ?thesis by blast
qed

theorem histogram_partition_witness:
  "0 \<le> sint (Size (mkObject ''a'' 1024 0)) \<and> 0 \<le> sint (Size (mkObject ''b'' 5 0))
   \<and> map BucketCount (generateSizeDistribution [mkObject ''a'' 1024 0, mkObject ''b'' 5 0])
       = [1, 1, 0, 0, 0]"
proof -
  let ?objs = "[mkObject ''a'' 1024 0, mkObject ''b'' 5 0]"
  have h: "\<forall>obj\<in>set ?objs. 0 \<le> sint (Size obj)" by (simp add: mkObject_def)
  from histogram_partition [OF h]
  have "map BucketCount (generateSizeDistribution ?objs) =
          [countInBucket 0 ?objs, countInBucket 1 ?objs, countInBucket 2 ?objs,
           countInBucket 3 ?objs, countInBucket 4 ?objs]"
    by blast
  then show ?thesis using h by (simp add: countInBucket_def histogramIndex_def mkObject_def)
qed

subsection \<open>File extensions\<close>

lemma ExtRev_dot:
  assumes "CHR ''.'' \<notin> set xs" and "CHR ''/'' \<notin> set xs"
  shows "ExtRev (xs @ CHR ''.'' # ys) acc = CHR ''.'' # (rev xs @ acc)"
  using assms by (induction xs arbitrary: acc) (auto simp add: IsPathSeparator_def)

lemma Ext_suffix:
  assumes "CHR ''.'' \<notin> set suf" and "CHR ''/'' \<notin> set suf"
  shows "Ext (stem @ CHR ''.'' # suf) = CHR ''.'' # suf"
  using ExtRev_dot [of "rev suf" "rev stem" "[]"] assms by (simp add: Ext_def)

lemma lastElement_segment:
  assumes "dir = [] \<or> last dir = CHR ''/''" and "CHR ''/'' \<notin> set seg"
  shows "lastElement (dir @ seg) = seg"
proof -
  have all: "\<forall>c\<in>set (rev seg). \<not> IsPathSeparator c"
    using assms(2) by (auto simp add: IsPathSeparator_def)
  have "takeWhile (\<lambda>c. \<not> IsPathSeparator c) (rev seg @ rev dir) = rev seg"
  proof (cases "dir = []")
    case True
    with all show ?thesis by simp
  next
    case False
    with assms(1) have "last dir = CHR ''/''" by simp
    with False have "hd (rev dir) = CHR ''/''" by (simp add: hd_rev)
    with False obtain ds where "rev dir = CHR ''/'' # ds" by (cases "rev dir") auto
    moreover have "takeWhile (\<lambda>c. \<not> IsPathSeparator c) (rev seg @ CHR ''/'' # ds) =
        rev seg @ takeWhile (\<lambda>c. \<not> IsPathSeparator c) (CHR ''/'' # ds)"
      by (rule takeWhile_append2) (use all in simp)
    ultimately show ?thesis by (simp add: IsPathSeparator_def)
  qed
  then show ?thesis by (simp add: lastElement_def)
qed

lemma stripTrailingSlashes_id:
  assumes "s \<noteq> []" and "last s \<noteq> CHR ''/''"
  shows "stripTrailingSlashes s = s"
proof -
  from assms obtain c cs where r: "rev s = c # cs" and "c \<noteq> CHR ''/''"
    by (cases "rev s") (auto simp add: last_rev [symmetric] simp del: last_rev)
  then have "dropWhile IsPathSeparator (rev s) = rev s" by (simp add: IsPathSeparator_def)
  then show ?thesis by (simp add: stripTrailingSlashes_def)
qed

lemma ExtRev_no_dot:
  assumes "CHR ''.'' \<notin> set xs"
  shows "ExtRev xs acc = []"
  using assms by (induction xs arbitrary: acc) auto

lemma Base_segment:
  assumes ne: "seg \<noteq> []"
    and seg: "CHR ''/'' \<notin> set seg"
    and dir: "dir = [] \<or> last dir = CHR ''/''"
  shows "Base (dir @ seg) = seg"
proof -
  have "last (dir @ seg) = last seg" using ne by simp
  moreover have "last seg \<in> set seg" using ne by simp
  ultimately have "last (dir @ seg) \<noteq> CHR ''/''" using seg by metis
  moreover have "dir @ seg \<noteq> []" using ne by simp
  ultimately have "stripTrailingSlashes (dir @ seg) = dir @ seg"
    by (rule stripTrailingSlashes_id [rotated])
  moreover have "lastElement (dir @ seg) = seg" by (rule lastElement_segment [OF dir seg])
  ultimately show ?thesis using ne by (simp add: Base_def Let_def)
qed

lemma HasSuffix_slash: "HasSuffix key ''/'' \<longleftrightarrow> key \<noteq> [] \<and> last key = CHR ''/''"
proof (cases key rule: rev_cases)
  case Nil
  then show ?thesis by (simp add: HasSuffix_def)
next
  case (snoc ys y)
  then show ?thesis by (auto simp add: HasSuffix_def)
qed

lemma getFileExtension_segment:
  assumes ne: "seg \<noteq> []"
    and seg: "CHR ''/'' \<notin> set seg"
    and dir: "dir = [] \<or> last dir = CHR ''/''"
  shows "getFileExtension toLower (dir @ seg) = getFileExtension toLower seg"
proof -
  have whole: "Base (dir @ seg) = seg" by (rule Base_segment [OF ne seg dir])
  have alone: "Base seg = seg" using Base_segment [OF ne seg, of "[]"] by simp
  have "last seg \<in> set seg" using ne by simp
  with seg have "last seg \<noteq> CHR ''/''" by metis
  with ne have "\<not> HasSuffix (dir @ seg) ''/''" and "\<not> HasSuffix seg ''/''"
    by (simp_all add: HasSuffix_slash)
  with whole alone show ?thesis by (simp add: getFileExtension_def Let_def)
qed

lemma getFileExtension_dot:
  assumes seg: "CHR ''/'' \<notin> set seg"
    and dot: "seg = stem @ CHR ''.'' # suf"
    and suf: "CHR ''.'' \<notin> set suf"
  shows "getFileExtension toLower seg = toLower suf"
proof -
  have ne: "seg \<noteq> []" using dot by simp
  have base: "Base seg = seg" using Base_segment [OF ne seg, of "[]"] by simp
  have "CHR ''/'' \<notin> set suf" using seg dot by simp
  then have "Ext seg = CHR ''.'' # suf" using Ext_suffix [OF suf] dot by simp
  with base show ?thesis by (simp add: getFileExtension_def Let_def TrimPrefix_def)
qed

lemma getFileExtension_no_dot:
  assumes ne: "seg \<noteq> []"
    and seg: "CHR ''/'' \<notin> set seg"
    and nodot: "CHR ''.'' \<notin> set seg"
  shows "getFileExtension toLower seg = ''[no extension]''"
proof -
  have base: "Base seg = seg" using Base_segment [OF ne seg, of "[]"] by simp
  have ext: "Ext seg = []" using nodot by (simp add: Ext_def ExtRev_no_dot)
  have "last seg \<in> set seg" using ne by simp
  with seg have "last seg \<noteq> CHR ''/''" by metis
  then have "\<not> HasSuffix seg ''/''" by (simp add: HasSuffix_slash)
  with base ext show ?thesis by (simp add: getFileExtension_def Let_def)
qed

text \<open>
  C6: the extension of a key is the extension of its last path segment, the text after
  its last \<open>/\<close>, when that is not empty. A segment that ends in a dot followed by a suffix
  without dots has that suffix in lower case, without the dot, as its extension; a segment
  without dots has \<open>[no extension]\<close>. This holds whatever function stands for
  \<open>strings.ToLower\<close>. The key \<open>a/B.CSV\<close> gives \<open>csv\<close> when \<open>CSV\<close> in lower case is \<open>csv\<close>;
  the keys \<open>folder/\<close> and \<open>README\<close> give \<open>[directory]\<close> and \<open>[no extension]\<close>.
\<close>

theorem extension_of_last_segment:
  "(seg \<noteq> [] \<and> CHR ''/'' \<notin> set seg \<and> (dir = [] \<or> last dir = CHR ''/'')
      \<longrightarrow> getFileExtension toLower (dir @ seg) = getFileExtension toLower seg)
   \<and> (CHR ''/'' \<notin> set seg \<and> seg = stem @ CHR ''.'' # suf \<and> CHR ''.'' \<notin> set suf
      \<longrightarrow> getFileExtension toLower seg = toLower suf)
   \<and> (seg \<noteq> [] \<and> CHR ''/'' \<notin> set seg \<and> CHR ''.'' \<notin> set seg
      \<longrightarrow> getFileExtension toLower seg = ''[no extension]'')
   \<and> (toLower ''CSV'' = ''csv'' \<longrightarrow> getFileExtension toLower ''a/B.CSV'' = ''csv'')
   \<and> getFileExtension toLower ''folder/'' = ''[directory]''
   \<and> getFileExtension toLower ''README'' = ''[no extension]''"
proof -
  have "getFileExtension toLower (''a/'' @ ''B.CSV'') = getFileExtension toLower ''B.CSV''"
    by (rule getFileExtension_segment) simp_all
  moreover have "getFileExtension toLower ''B.CSV'' = toLower ''CSV''"
    by (rule getFileExtension_dot [where stem = "''B''"]) simp_all
  ultimately have ex1: "getFileExtension toLower ''a/B.CSV'' = ''csv''"
    if "toLower ''CSV'' = ''csv''"
    using that by simp
  have ex2: "getFileExtension toLower ''folder/'' = ''[directory]''"
    by (simp add: getFileExtension_def Base_def stripTrailingSlashes_def lastElement_def
        IsPathSeparator_def Ext_def HasSuffix_def)
  have ex3: "getFileExtension toLower ''README'' = ''[no extension]''"
    by (rule getFileExtension_no_dot) simp_all
  from getFileExtension_segment [of seg dir toLower]
    getFileExtension_dot [of seg stem suf toLower]
    getFileExtension_no_dot [of seg toLower] ex1 ex2 ex3
  show ?thesis by blast
qed

theorem extension_of_last_segment_witness:
  "getFileExtension asciiLower ''v1.0/README'' = ''[no extension]''
   \<and> getFileExtension asciiLower ''data/2024/Report.Final.PDF'' = ''pdf''
   \<and> asciiLower ''CSV'' = ''csv''
   \<and> getFileExtension asciiLower ''a/B.CSV'' = ''csv''"
proof -
  note thm1 = extension_of_last_segment
    [where toLower = asciiLower and dir = "''v1.0/''" and seg = "''README''"]
  have "getFileExtension asciiLower (''v1.0/'' @ ''README'') =
        getFileExtension asciiLower ''README''"
    using thm1 by simp
  moreover have "getFileExtension asciiLower ''README'' = ''[no extension]''"
    using thm1 by simp
  ultimately have first: "getFileExtension asciiLower ''v1.0/README'' = ''[no extension]''"
    by simp
  note thm2 = extension_of_last_segment
    [where toLower = asciiLower and dir = "''data/2024/''" and seg = "''Report.Final.PDF''"
       and stem = "''Report.Final''" and suf = "''PDF''"]
  have "getFileExtension asciiLower (''data/2024/'' @ ''Report.Final.PDF'') =
        getFileExtension asciiLower ''Report.Final.PDF''"
    using thm2 by simp
  moreover have "getFileExtension asciiLower ''Report.Final.PDF'' = asciiLower ''PDF''"
    using thm2 by simp
  moreover have "asciiLower ''PDF'' = ''pdf''" by code_simp
  ultimately have second: "getFileExtension asciiLower ''data/2024/Report.Final.PDF'' = ''pdf''"
    by simp
  have csv: "asciiLower ''CSV'' = ''csv''" by code_simp
  with extension_of_last_segment [where toLower = asciiLower]
  have third: "getFileExtension asciiLower ''a/B.CSV'' = ''csv''" by blast
  from first second csv third show ?thesis by simp
qed

text \<open>
  C5: a key that ends in \<open>/\<close> is not always classified as \<open>[directory]\<close>. \<open>filepath.Base\<close>
  removes the trailing \<open>/\<close>, so the key \<open>v1.0/\<close> has the base \<open>v1.0\<close> and its extension is
  the lower case of \<open>0\<close>, which is \<open>0\<close>; the test for the trailing \<open>/\<close> is reached only
  when the base has no extension.
\<close>

theorem directory_marker_with_dot:
  "HasSuffix ''v1.0/'' ''/''
   \<and> getFileExtension toLower ''v1.0/'' = toLower ''0''
   \<and> getFileExtension asciiLower ''v1.0/'' = ''0''"
proof -
  have "HasSuffix ''v1.0/'' ''/''" by (simp add: HasSuffix_def)
  moreover have general: "getFileExtension f ''v1.0/'' = f ''0''" for f
    by (simp add: getFileExtension_def Base_def stripTrailingSlashes_def lastElement_def
        IsPathSeparator_def Ext_def TrimPrefix_def)
  moreover have "asciiLower ''0'' = ''0''" by code_simp
  ultimately show ?thesis by (simp add: general)
qed

subsection \<open>Date range\<close>

lemma analyzeObject_range:
  "Earliest (DateRangeOf (analyzeObject toLower s obj)) = min (LastModified obj) (Earliest (DateRangeOf s))"
  "Latest (DateRangeOf (analyzeObject toLower s obj)) = max (LastModified obj) (Latest (DateRangeOf s))"
  by (auto simp add: analyzeObject_def Let_def Before_def After_def)

lemma foldl_analyzeObject_earliest:
  "Earliest (DateRangeOf (foldl (analyzeObject toLower) s objs)) =
   Min (insert (Earliest (DateRangeOf s)) (LastModified ` set objs))"
proof (induction objs arbitrary: s)
  case Nil
  then show ?case by simp
next
  case (Cons obj objs)
  have "Min (insert (min (LastModified obj) (Earliest (DateRangeOf s))) (LastModified ` set objs))
      = Min (insert (Earliest (DateRangeOf s)) (insert (LastModified obj) (LastModified ` set objs)))"
    by (cases "set objs = {}") (simp_all add: min.assoc min.commute min.left_commute)
  then show ?case by (simp add: Cons.IH analyzeObject_range)
qed

lemma foldl_analyzeObject_latest:
  "Latest (DateRangeOf (foldl (analyzeObject toLower) s objs)) =
   Max (insert (Latest (DateRangeOf s)) (LastModified ` set objs))"
proof (induction objs arbitrary: s)
  case Nil
  then show ?case by simp
next
  case (Cons obj objs)
  have "Max (insert (max (LastModified obj) (Latest (DateRangeOf s))) (LastModified ` set objs))
      = Max (insert (Latest (DateRangeOf s)) (insert (LastModified obj) (LastModified ` set objs)))"
    by (cases "set objs = {}") (simp_all add: max.assoc max.commute max.left_commute)
  then show ?case by (simp add: Cons.IH analyzeObject_range)
qed

text \<open>
  C9: for a collection that is not empty, \<open>Earliest\<close> is the least and \<open>Latest\<close> the
  greatest \<open>LastModified\<close> of its objects; for the empty collection both are the zero time.
\<close>

theorem date_range_min_max:
  "(objs \<noteq> [] \<longrightarrow>
      Earliest (DateRangeOf (AnalyzeMetadata toLower objs)) = Min (LastModified ` set objs) \<and>
      Latest (DateRangeOf (AnalyzeMetadata toLower objs)) = Max (LastModified ` set objs))
   \<and> Earliest (DateRangeOf (AnalyzeMetadata toLower [])) = zeroTime
   \<and> Latest (DateRangeOf (AnalyzeMetadata toLower [])) = zeroTime"
proof -
  have empty: "Earliest (DateRangeOf (AnalyzeMetadata toLower [])) = zeroTime
     \<and> Latest (DateRangeOf (AnalyzeMetadata toLower [])) = zeroTime"
    by (simp add: AnalyzeMetadata_def)
  have "Earliest (DateRangeOf (AnalyzeMetadata toLower objs)) = Min (LastModified ` set objs) \<and>
      Latest (DateRangeOf (AnalyzeMetadata toLower objs)) = Max (LastModified ` set objs)"
    if "objs \<noteq> []"
  proof -
    from that obtain o0 rest where objs: "objs = o0 # rest" by (cases objs) auto
    show ?thesis
      unfolding objs
      by (simp add: AnalyzeMetadata_def Let_def foldl_analyzeObject_earliest
          foldl_analyzeObject_latest analyzeObject_range del: foldl_Cons)
  qed
  with empty show ?thesis by blast
qed

theorem date_range_min_max_witness:
  "[mkObject ''a'' 1 30, mkObject ''b'' 2 10, mkObject ''c'' 3 20] \<noteq> []
   \<and> Earliest (DateRangeOf (AnalyzeMetadata asciiLower
        [mkObject ''a'' 1 30, mkObject ''b'' 2 10, mkObject ''c'' 3 20])) = 10
   \<and> Latest (DateRangeOf (AnalyzeMetadata asciiLower
        [mkObject ''a'' 1 30, mkObject ''b'' 2 10, mkObject ''c'' 3 20])) = 30"
  using date_range_min_max [of "[mkObject ''a'' 1 30, mkObject ''b'' 2 10, mkObject ''c'' 3 20]"]
  by (simp add: mkObject_def)

section \<open>Properties of the bucket analyzer\<close>

lemma sum_dom_upd:
  fixes f :: "'v \<Rightarrow> 'a::ab_group_add"
  assumes "finite (dom m)"
  shows "(\<Sum>k\<in>dom (m(c \<mapsto> v)). f (the ((m(c \<mapsto> v)) k))) =
         (\<Sum>k\<in>dom m. f (the (m k))) - (case m c of None \<Rightarrow> 0 | Some w \<Rightarrow> f w) + f v"
proof -
  let ?g = "\<lambda>k. f (the ((m(c \<mapsto> v)) k))"
  have rest: "sum ?g (dom m - {c}) = (\<Sum>k\<in>dom m - {c}. f (the (m k)))"
    by (rule sum.cong) auto
  have "sum ?g (dom (m(c \<mapsto> v))) = sum ?g (insert c (dom m))" by simp
  also have "\<dots> = ?g c + sum ?g (dom m - {c})"
    using assms by (rule sum.insert_remove)
  finally have new: "sum ?g (dom (m(c \<mapsto> v))) = f v + (\<Sum>k\<in>dom m - {c}. f (the (m k)))"
    using rest by simp
  have old: "(\<Sum>k\<in>dom m. f (the (m k))) =
             (case m c of None \<Rightarrow> 0 | Some w \<Rightarrow> f w) + (\<Sum>k\<in>dom m - {c}. f (the (m k)))"
  proof (cases "m c")
    case None
    then have "dom m - {c} = dom m" by auto
    with None show ?thesis by simp
  next
    case (Some w)
    then have "c \<in> dom m" by auto
    with assms have "(\<Sum>k\<in>dom m. f (the (m k))) = f (the (m c)) + (\<Sum>k\<in>dom m - {c}. f (the (m k)))"
      by (simp add: sum.remove)
    with Some show ?thesis by simp
  qed
  from new old show ?thesis by (simp add: algebra_simps)
qed


lemma lookupStats_classStats:
  assumes "totalsAgree s objs"
  shows "lookupStats (StorageClasses s) c = classStats c objs"
proof (cases "StorageClasses s c")
  case None
  then have "c \<notin> StorageClass ` set objs" using assms by (auto simp add: totalsAgree_def)
  then have "filter (\<lambda>obj. StorageClass obj = c) objs = []" by (auto simp add: filter_empty_conv)
  with None show ?thesis by (simp add: lookupStats_def classStats_def)
next
  case (Some w)
  then have "c \<in> dom (StorageClasses s)" by auto
  with assms have "StorageClasses s c = Some (classStats c objs)"
    by (simp add: totalsAgree_def)
  then show ?thesis by (simp add: lookupStats_def)
qed

lemma lookupStats_case:
  "(case m c of None \<Rightarrow> 0 | Some w \<Rightarrow> Count w) = Count (lookupStats m c)"
  "(case m c of None \<Rightarrow> 0 | Some w \<Rightarrow> SizeBytes w) = SizeBytes (lookupStats m c)"
  by (simp_all add: lookupStats_def split: option.split)

lemma processObject_fields:
  "objects (processObject st obj) = objects st @ [recordOf obj]"
  "processedCount (processObject st obj) = processedCount st + 1"
  "TotalObjects (summary (processObject st obj)) = TotalObjects (summary st) + 1"
  "TotalBytes (summary (processObject st obj)) = TotalBytes (summary st) + Size (recordOf obj)"
  "StorageClasses (summary (processObject st obj)) =
     (StorageClasses (summary st))(StorageClass (recordOf obj) \<mapsto>
        (lookupStats (StorageClasses (summary st)) (StorageClass (recordOf obj)))
          \<lparr>Count := Count (lookupStats (StorageClasses (summary st)) (StorageClass (recordOf obj))) + 1,
           SizeBytes := SizeBytes (lookupStats (StorageClasses (summary st)) (StorageClass (recordOf obj)))
                      + Size (recordOf obj)\<rparr>)"
  "Name (summary (processObject st obj)) = Name (summary st)"
  "Region (summary (processObject st obj)) = Region (summary st)"
  "CreationDate (summary (processObject st obj)) = CreationDate (summary st)"
  by (simp_all add: processObject_def recordOf_def Let_def)

lemma processObject_totalsAgree:
  assumes inv: "totalsAgree (summary st) (objects st)"
  shows "totalsAgree (summary (processObject st obj)) (objects (processObject st obj))"
proof -
  define m where "m = StorageClasses (summary st)"
  define r where "r = recordOf obj"
  define c where "c = StorageClass r"
  define objs where "objs = objects st"
  define v where "v = (lookupStats m c)\<lparr>Count := Count (lookupStats m c) + 1,
                        SizeBytes := SizeBytes (lookupStats m c) + Size r\<rparr>"
  have fin: "finite (dom m)" using inv by (simp add: totalsAgree_def m_def)
  have look: "lookupStats m c' = classStats c' objs" for c'
    using lookupStats_classStats [OF inv] by (simp add: m_def objs_def)
  have m': "StorageClasses (summary (processObject st obj)) = m(c \<mapsto> v)"
    by (simp add: processObject_fields m_def c_def r_def v_def)
  have objs': "objects (processObject st obj) = objs @ [r]"
    by (simp add: processObject_fields objs_def r_def)
  have v: "v = classStats c (objs @ [r])"
    by (simp add: v_def look classStats_def c_def)
  have other: "classStats c' (objs @ [r]) = classStats c' objs" if "c' \<noteq> c" for c'
    using that by (simp add: classStats_def c_def)
  have f1: "finite (dom (m(c \<mapsto> v)))" using fin by simp
  have f2: "TotalObjects (summary (processObject st obj)) = int (length (objs @ [r]))"
    using inv by (simp add: processObject_fields totalsAgree_def objs_def)
  have f3: "(\<Sum>k\<in>dom (m(c \<mapsto> v)). Count (the ((m(c \<mapsto> v)) k))) =
           (\<Sum>k\<in>dom m. Count (the (m k))) + 1"
  proof -
    have "Count v = Count (lookupStats m c) + 1" by (simp add: v_def)
    then show ?thesis unfolding sum_dom_upd [OF fin] lookupStats_case by simp
  qed
  have f4: "TotalBytes (summary (processObject st obj)) = sum_list (map Size (objs @ [r]))"
    using inv by (simp add: processObject_fields totalsAgree_def objs_def r_def)
  have f5: "(\<Sum>k\<in>dom (m(c \<mapsto> v)). SizeBytes (the ((m(c \<mapsto> v)) k))) =
           (\<Sum>k\<in>dom m. SizeBytes (the (m k))) + Size r"
  proof -
    have "SizeBytes v = SizeBytes (lookupStats m c) + Size r" by (simp add: v_def)
    then show ?thesis unfolding sum_dom_upd [OF fin] lookupStats_case by simp
  qed
  have f6: "dom (m(c \<mapsto> v)) = StorageClass ` set (objs @ [r])"
    using inv by (auto simp add: totalsAgree_def m_def objs_def c_def)
  have f7: "\<forall>c'\<in>dom (m(c \<mapsto> v)). (m(c \<mapsto> v)) c' = Some (classStats c' (objs @ [r]))"
  proof
    fix c' assume c': "c' \<in> dom (m(c \<mapsto> v))"
    show "(m(c \<mapsto> v)) c' = Some (classStats c' (objs @ [r]))"
    proof (cases "c' = c")
      case True
      then show ?thesis by (simp add: v)
    next
      case False
      with c' have "c' \<in> dom m" by auto
      with inv have "m c' = Some (classStats c' objs)"
        by (simp add: totalsAgree_def m_def objs_def)
      with False show ?thesis by (simp add: other)
    qed
  qed
  have tot: "TotalObjects (summary st) = (\<Sum>k\<in>dom m. Count (the (m k)))"
    and byt: "TotalBytes (summary st) = (\<Sum>k\<in>dom m. SizeBytes (the (m k)))"
    using inv unfolding totalsAgree_def m_def by blast+
  have cnt: "TotalObjects (summary (processObject st obj)) =
            (\<Sum>k\<in>dom (m(c \<mapsto> v)). Count (the ((m(c \<mapsto> v)) k)))"
    using f3 tot by (simp add: processObject_fields)
  have byts: "TotalBytes (summary (processObject st obj)) =
            (\<Sum>k\<in>dom (m(c \<mapsto> v)). SizeBytes (the ((m(c \<mapsto> v)) k)))"
    using f5 byt by (simp add: processObject_fields r_def)
  show ?thesis
    unfolding totalsAgree_def m' objs'
    using f1 f2 cnt f4 byts f6 f7 by blast
qed

lemma processContents_totalsAgree:
  assumes "totalsAgree (summary st) (objects st)"
  shows "totalsAgree (summary (processContents st contents))
           (objects (processContents st contents))"
  using assms unfolding processContents_def
  by (induction contents arbitrary: st) (simp_all add: processObject_totalsAgree)

lemma processContents_objects:
  "objects (processContents st contents) = objects st @ map recordOf contents"
  unfolding processContents_def
  by (induction contents arbitrary: st) (simp_all add: processObject_fields)

lemma processContents_count:
  "processedCount (processContents st contents) = processedCount st + int (length contents)"
  unfolding processContents_def
  by (induction contents arbitrary: st) (simp_all add: processObject_fields)

lemma totalsAgree_initial: "totalsAgree (summary (initialState (initialSummary n r)))
    (objects (initialState (initialSummary n r)))"
  by (simp add: totalsAgree_def initialState_def initialSummary_def)

lemma listObjectsLoop_totalsAgree:
  assumes run: "listObjectsLoop client limit tok st = Some (Inr st')"
    and inv: "totalsAgree (summary st) (objects st)"
  shows "totalsAgree (summary st') (objects st')"
proof -
  let ?Q = "\<lambda>(c :: s3client) (l :: int) (t :: string option) s (y :: error + ListState).
              \<forall>s'. y = Inr s' \<longrightarrow> totalsAgree (summary s) (objects s)
                \<longrightarrow> totalsAgree (summary s') (objects s')"
  have step: "?Q client limit tok st y"
    if IH: "\<And>c l t s y. loop c l t s = Some y \<Longrightarrow> ?Q c l t s y"
      and body:
        "(if limit > 0 \<and> processedCount st \<ge> limit then Some (Inr st)
          else
            let remaining = limit - processedCount st;
                maxKeys = (if limit > 0 \<and> remaining < 1000 then Some remaining else None)
            in case client tok maxKeys of
                 Inl err \<Rightarrow> Some (Inl err)
               | Inr result \<Rightarrow>
                   let st' = processContents st (Contents result)
                   in if \<not> ToBool (IsTruncated result) then Some (Inr st')
                      else loop client limit (NextContinuationToken result) st') = Some y"
    for loop client limit tok st y
  proof (intro allI impI)
    fix s' assume y: "y = Inr s'" and inv: "totalsAgree (summary st) (objects st)"
    show "totalsAgree (summary s') (objects s')"
    proof (cases "0 < limit \<and> limit \<le> processedCount st")
      case True
      with body y inv show ?thesis by simp
    next
      case notdone: False
      let ?maxKeys = "if 0 < limit \<and> limit - processedCount st < 1000
                      then Some (limit - processedCount st) else None"
      show ?thesis
      proof (cases "client tok ?maxKeys")
        case (Inl err)
        with body notdone y show ?thesis by (simp add: Let_def)
      next
        case (Inr result)
        let ?st = "processContents st (Contents result)"
        have inv': "totalsAgree (summary ?st) (objects ?st)"
          using inv by (rule processContents_totalsAgree)
        show ?thesis
        proof (cases "ToBool (IsTruncated result)")
          case False
          with body notdone Inr y inv' show ?thesis by (simp add: Let_def)
        next
          case True
          with body notdone Inr y
          have "loop client limit (NextContinuationToken result) ?st = Some (Inr s')"
            by (simp add: Let_def)
          from IH [OF this] inv' show ?thesis by simp
        qed
      qed
    qed
  qed
  have "?Q client limit tok st (Inr st')"
    by (rule listObjectsLoop.raw_induct [where P = ?Q, OF _ run]) (rule step)
  with inv show ?thesis by simp
qed

lemma sint_sum_list:
  fixes xs :: "64 word list"
  assumes "\<forall>x\<in>set xs. 0 \<le> sint x" and "sum_list (map sint xs) < 2 ^ 63"
  shows "sint (sum_list xs) = sum_list (map sint xs)"
  using assms
proof (induction xs)
  case Nil
  then show ?case by simp
next
  case (Cons x xs)
  have nonneg: "0 \<le> sum_list (map sint xs)"
    using Cons.prems(1) by (intro sum_list_nonneg) auto
  have x0: "0 \<le> sint x" using Cons.prems(1) by simp
  have "sum_list (map sint xs) < 2 ^ 63" using Cons.prems(2) x0 by simp
  with Cons have IH: "sint (sum_list xs) = sum_list (map sint xs)" by simp
  have "sint (x + sum_list xs) = signed_take_bit 63 (sint x + sint (sum_list xs))"
    by (simp add: sint_word_ariths)
  also have "\<dots> = sint x + sint (sum_list xs)"
    using Cons.prems(2) x0 nonneg IH
    by (intro signed_take_bit_int_eq_self) simp_all
  finally show ?case using IH by simp
qed

lemma listObjects_initialState:
  "listObjects client limit s = listObjectsLoop client limit None (initialState s)"
  by (simp add: listObjects_def initialState_def)

lemma totalsAgree_start:
  "totalsAgree (summary (initialState ((initialSummary n r)\<lparr>CreationDate := created\<rparr>)))
     (objects (initialState ((initialSummary n r)\<lparr>CreationDate := created\<rparr>)))"
  by (simp add: totalsAgree_def initialState_def initialSummary_def)

lemma AnalyzeBucket_totalsAgree:
  assumes "AnalyzeBucket client limit creationDate n r = Some (Inr (s, objs))"
  shows "totalsAgree s objs"
proof -
  from assms obtain created st where
    run: "listObjects client limit ((initialSummary n r)\<lparr>CreationDate := created\<rparr>) = Some (Inr st)"
    and res: "s = summary st" "objs = objects st"
    by (auto simp add: AnalyzeBucket_def split: sum.splits option.splits)
  from run have "totalsAgree (summary st) (objects st)"
    unfolding listObjects_initialState
    by (rule listObjectsLoop_totalsAgree) (rule totalsAgree_start)
  with res show ?thesis by simp
qed

text \<open>
  C3: after any sequence of listing entries has been processed from the initial summary,
  and for whatever \<open>AnalyzeBucket\<close> returns, \<open>TotalObjects\<close> is the number of objects
  kept and the sum of the per-class counts, and \<open>TotalBytes\<close> is the sum of the sizes of
  the objects and the sum of the per-class sizes; an entry without storage class is kept
  and counted under \<open>STANDARD\<close>. The sums of sizes are \<open>int64\<close> sums; they are the sums
  of the integers whenever the sizes are at least 0 and their sum is below \<open>2 ^ 63\<close>.
\<close>

theorem bucket_totals:
  "totalsAgree (summary (processContents (initialState (initialSummary n r)) contents))
     (map recordOf contents)
   \<and> objects (processContents (initialState (initialSummary n r)) contents) = map recordOf contents
   \<and> (AnalyzeBucket client limit creationDate n r = Some (Inr (s, objs)) \<longrightarrow> totalsAgree s objs)
   \<and> (totalsAgree s objs \<and> (\<forall>obj\<in>set objs. 0 \<le> sint (Size obj)) \<and>
        (\<Sum>obj\<leftarrow>objs. sint (Size obj)) < 2 ^ 63
      \<longrightarrow> sint (TotalBytes s) = (\<Sum>obj\<leftarrow>objs. sint (Size obj)))"
proof -
  let ?st = "processContents (initialState (initialSummary n r)) contents"
  have objs: "objects ?st = map recordOf contents"
    by (simp add: processContents_objects initialState_def)
  have "totalsAgree (summary ?st) (objects ?st)"
    by (rule processContents_totalsAgree) (rule totalsAgree_initial)
  then have first: "totalsAgree (summary ?st) (map recordOf contents)"
    by (simp add: objs)
  have exact: "sint (TotalBytes s) = (\<Sum>obj\<leftarrow>objs. sint (Size obj))"
    if "totalsAgree s objs" "\<forall>obj\<in>set objs. 0 \<le> sint (Size obj)"
       "(\<Sum>obj\<leftarrow>objs. sint (Size obj)) < 2 ^ 63"
  proof -
    have "TotalBytes s = sum_list (map Size objs)" using that(1) by (simp add: totalsAgree_def)
    moreover have "sint (sum_list (map Size objs)) = sum_list (map sint (map Size objs))"
      using that(2,3) by (intro sint_sum_list) (simp_all add: comp_def)
    ultimately show ?thesis by (simp add: comp_def)
  qed
  from first objs AnalyzeBucket_totalsAgree exact show ?thesis by blast
qed

theorem bucket_totals_witness:
  "AnalyzeBucket exampleClient 0 (Inr 7) ''bucket'' ''eu-west-1''
     = Some (Inr (exampleSummary, exampleObjects))
   \<and> totalsAgree exampleSummary exampleObjects
   \<and> sint (TotalBytes exampleSummary) = 15"
proof -
  let ?s0 = "(initialSummary ''bucket'' ''eu-west-1'')\<lparr>CreationDate := 7\<rparr>"
  let ?st1 = "processContents (initialState ?s0) (Contents examplePage1)"
  let ?st2 = "processContents ?st1 (Contents examplePage2)"
  have second: "listObjectsLoop exampleClient 0 (Some ''page2'') ?st1 = Some (Inr ?st2)"
    by (subst listObjectsLoop.simps) (simp add: exampleClient_def examplePage2_def ToBool_def)
  have "listObjectsLoop exampleClient 0 None (initialState ?s0) =
          listObjectsLoop exampleClient 0 (Some ''page2'') ?st1"
    by (subst listObjectsLoop.simps) (simp add: exampleClient_def examplePage1_def ToBool_def)
  with second have loop: "listObjects exampleClient 0 ?s0 = Some (Inr ?st2)"
    by (simp add: listObjects_initialState)
  have st2: "summary ?st2 = exampleSummary" "objects ?st2 = exampleObjects"
    by (simp_all add: processContents_def processObject_def initialState_def initialSummary_def
        examplePage1_def examplePage2_def exampleSummary_def exampleObjects_def lookupStats_def
        ToString_def ToInt64_def ToTime_def Let_def)
  have run: "AnalyzeBucket exampleClient 0 (Inr 7) ''bucket'' ''eu-west-1''
     = Some (Inr (exampleSummary, exampleObjects))"
    by (simp add: AnalyzeBucket_def loop st2)
  have agree: "totalsAgree exampleSummary exampleObjects"
    using bucket_totals [where client = exampleClient and limit = 0 and creationDate = "Inr 7"
        and n = "''bucket''" and r = "''eu-west-1''" and s = exampleSummary
        and objs = exampleObjects] run
    by blast
  have nonneg: "\<forall>obj\<in>set exampleObjects. 0 \<le> sint (Size obj)"
    and small: "(\<Sum>obj\<leftarrow>exampleObjects. sint (Size obj)) < 2 ^ 63"
    by (simp_all add: exampleObjects_def)
  have "sint (TotalBytes exampleSummary) = (\<Sum>obj\<leftarrow>exampleObjects. sint (Size obj))"
    using bucket_totals [where s = exampleSummary and objs = exampleObjects] agree nonneg small
    by blast
  then have "sint (TotalBytes exampleSummary) = 15" by (simp add: exampleObjects_def)
  with run agree show ?thesis by simp
qed

section \<open>Properties of the partition analyzer\<close>

subsection \<open>Grouping\<close>

lemma addToPartition_groupOf:
  "addToPartition (groupOf name pfx members) obj = groupOf name pfx (members @ [obj])"
  by (simp add: addToPartition_def groupOf_def)

lemma map_of_update_entries:
  "map_of (map (\<lambda>(k', p). if k' = k then (k', f p) else (k', p)) m) k' =
   (if k' = k then map_option f (map_of m k) else map_of m k')"
  by (induction m) auto

lemma map_fst_update_entries:
  "map fst (map (\<lambda>(k', p). if k' = k then (k', f p) else (k', p)) m) = map fst m"
  by (induction m) auto

lemma groupsOf_step:
  assumes inv: "groupsOf keyOf pfx name objs m"
  shows "groupsOf keyOf pfx name (objs @ [obj]) (groupingStep keyOf pfx name m obj)"
proof (cases "keyOf obj")
  case None
  then have "membersOf keyOf k (objs @ [obj]) = membersOf keyOf k objs" for k
    by (simp add: membersOf_def)
  with inv None show ?thesis by (simp add: groupsOf_def groupingStep_def)
next
  case (Some k)
  have dist: "distinct (map fst m)" using inv by (simp add: groupsOf_def)
  have look: "map_of m k' =
         (if membersOf keyOf k' objs = [] then None
          else Some (groupOf name (pfx k') (membersOf keyOf k' objs)))" for k'
    using inv by (simp add: groupsOf_def)
  have same: "membersOf keyOf k (objs @ [obj]) = membersOf keyOf k objs @ [obj]"
    using Some by (simp add: membersOf_def)
  have other: "membersOf keyOf k' (objs @ [obj]) = membersOf keyOf k' objs" if "k' \<noteq> k" for k'
    using Some that by (simp add: membersOf_def)
  show ?thesis
  proof (cases "membersOf keyOf k objs = []")
    case True
    then have none: "map_of m k = None" by (simp add: look)
    then have notin: "k \<notin> fst ` set m" by (simp add: map_of_eq_None_iff)
    have step: "groupingStep keyOf pfx name m obj = m @ [(k, groupOf name (pfx k) [obj])]"
      using Some none by (simp add: groupingStep_def recordObject_def groupOf_def)
    have "distinct (map fst (m @ [(k, groupOf name (pfx k) [obj])]))"
      using dist notin by simp
    moreover have "map_of (m @ [(k, groupOf name (pfx k) [obj])]) k' =
         (if membersOf keyOf k' (objs @ [obj]) = [] then None
          else Some (groupOf name (pfx k') (membersOf keyOf k' (objs @ [obj]))))" for k'
    proof (cases "k' = k")
      case True
      with \<open>membersOf keyOf k objs = []\<close> none show ?thesis
        by (simp add: same map_add_def)
    next
      case False
      then show ?thesis by (simp add: other look map_add_def)
    qed
    ultimately show ?thesis unfolding step groupsOf_def by blast
  next
    case False
    then have some: "map_of m k = Some (groupOf name (pfx k) (membersOf keyOf k objs))"
      by (simp add: look)
    let ?m' = "map (\<lambda>(k', p). if k' = k
                 then (k', addToPartition (groupOf name (pfx k) (membersOf keyOf k objs)) obj)
                 else (k', p)) m"
    have step: "groupingStep keyOf pfx name m obj = ?m'"
      using Some some by (simp add: groupingStep_def recordObject_def)
    have "map fst ?m' = map fst m" by (rule map_fst_update_entries)
    then have "distinct (map fst ?m')" using dist by (simp only:)
    moreover have "map_of ?m' k' =
         (if membersOf keyOf k' (objs @ [obj]) = [] then None
          else Some (groupOf name (pfx k') (membersOf keyOf k' (objs @ [obj]))))" for k'
    proof (cases "k' = k")
      case True
      then show ?thesis
        by (simp add: map_of_update_entries some same addToPartition_groupOf)
    next
      case False
      then show ?thesis by (simp add: map_of_update_entries other look)
    qed
    ultimately show ?thesis unfolding step groupsOf_def by blast
  qed
qed

lemma groupsOf_foldl:
  "groupsOf keyOf pfx name objs (foldl (groupingStep keyOf pfx name) [] objs)"
proof (induction objs rule: rev_induct)
  case Nil
  show ?case by (simp add: groupsOf_def membersOf_def)
next
  case (snoc obj objs)
  then show ?case by (simp add: groupsOf_step)
qed

lemma groupsOf_entry:
  assumes "groupsOf keyOf pfx name objs m" and "(k, p) \<in> set m"
  shows "p = groupOf name (pfx k) (membersOf keyOf k objs) \<and> membersOf keyOf k objs \<noteq> []"
proof -
  from assms have "distinct (map fst m)" by (simp add: groupsOf_def)
  with assms(2) have "map_of m k = Some p" by simp
  moreover from assms(1) have "map_of m k =
         (if membersOf keyOf k objs = [] then None
          else Some (groupOf name (pfx k) (membersOf keyOf k objs)))"
    unfolding groupsOf_def by blast
  ultimately show ?thesis by (cases "membersOf keyOf k objs = []") simp_all
qed

lemma groupsOf_keys:
  assumes "groupsOf keyOf pfx name objs m"
  shows "set (map fst m) = {k. membersOf keyOf k objs \<noteq> []}"
proof -
  have "k \<in> fst ` set m \<longleftrightarrow> membersOf keyOf k objs \<noteq> []" for k
  proof -
    have "k \<in> fst ` set m \<longleftrightarrow> map_of m k \<noteq> None" by (simp add: map_of_eq_None_iff)
    with assms show ?thesis by (simp add: groupsOf_def)
  qed
  then show ?thesis by auto
qed

lemma groupsOf_values:
  assumes "groupsOf keyOf pfx name objs m"
  shows "map snd m = map (\<lambda>k. groupOf name (pfx k) (membersOf keyOf k objs)) (map fst m)"
proof -
  have "snd e = groupOf name (pfx (fst e)) (membersOf keyOf (fst e) objs)" if "e \<in> set m" for e
    using groupsOf_entry [OF assms, of "fst e" "snd e"] that by simp
  then show ?thesis by (simp add: comp_def)
qed

lemma update_entries_absent:
  assumes "k \<notin> fst ` set m"
  shows "map (\<lambda>(k', p). if k' = k then (k', f p) else (k', p)) m = m"
  using assms by (induction m) auto

lemma totalCount_update_entries:
  assumes "distinct (map fst m)" and "map_of m k = Some part"
  shows "totalCount (map (\<lambda>(k', p). if k' = k then (k', addToPartition part obj) else (k', p)) m)
         = totalCount m + 1"
  using assms
proof (induction m)
  case Nil
  then show ?case by simp
next
  case (Cons e m)
  obtain k' p where e: "e = (k', p)" by (cases e)
  show ?case
  proof (cases "k' = k")
    case True
    with Cons.prems e have "part = p" and "k \<notin> fst ` set m" by auto
    then show ?thesis
      using True e by (simp add: update_entries_absent totalCount_def addToPartition_def)
  next
    case False
    with Cons e show ?thesis by (simp add: totalCount_def)
  qed
qed

lemma totalCount_recordObject:
  assumes "distinct (map fst m)"
  shows "totalCount (recordObject k pfx name obj m) = totalCount m + 1"
proof (cases "map_of m k")
  case None
  then show ?thesis by (simp add: recordObject_def totalCount_def)
next
  case (Some part)
  with totalCount_update_entries [OF assms Some] show ?thesis by (simp add: recordObject_def)
qed

lemma totalCount_groupingStep:
  assumes "distinct (map fst m)"
  shows "totalCount (groupingStep keyOf pfx name m obj) =
         totalCount m + (if keyOf obj = None then 0 else 1)"
  using assms by (cases "keyOf obj") (simp_all add: groupingStep_def totalCount_recordObject)

lemma totalCount_foldl:
  "totalCount (foldl (groupingStep keyOf pfx name) [] objs) =
   int (length (filter (\<lambda>obj. keyOf obj \<noteq> None) objs))"
proof (induction objs rule: rev_induct)
  case Nil
  show ?case by (simp add: totalCount_def)
next
  case (snoc obj objs)
  have "distinct (map fst (foldl (groupingStep keyOf pfx name) [] objs))"
    using groupsOf_foldl [of keyOf pfx name objs] by (simp add: groupsOf_def)
  with snoc show ?case
    by (simp add: totalCount_groupingStep)
qed

lemma groupStep_groupingStep:
  "groupStep name re = groupingStep (matchKey re) (\<lambda>k. k) name"
  by (intro ext) (simp add: groupStep_def groupingStep_def matchKey_def)

lemma foldl_add_sum_list:
  fixes f :: "'a \<Rightarrow> int"
  shows "foldl (\<lambda>total p. total + f p) a ps = a + sum_list (map f ps)"
  by (induction ps arbitrary: a) simp_all

lemma sum_list_sort_key:
  fixes f :: "'a \<Rightarrow> int"
  shows "sum_list (map f (sort_key g xs)) = sum_list (map f xs)"
proof -
  have "mset (map f (sort_key g xs)) = mset (map f xs)" by simp
  then show ?thesis by (metis sum_mset_sum_list)
qed

lemma groupByPattern_mset:
  "mset (groupByPattern objs name re) = mset (map snd (foldl (groupStep name re) [] objs))"
  by (simp add: groupByPattern_def)

lemma groupByPattern_total:
  "foldl (\<lambda>total p. total + ObjectCount p) 0 (groupByPattern objs name re) =
   int (length (matched re objs))"
proof -
  have "sum_list (map ObjectCount (groupByPattern objs name re)) =
        totalCount (foldl (groupStep name re) [] objs)"
    by (simp add: groupByPattern_def sum_list_sort_key totalCount_def comp_def)
  then show ?thesis
    by (simp add: foldl_add_sum_list groupStep_groupingStep totalCount_foldl matched_def
        matchKey_def)
qed

lemma groupByPattern_prefixes:
  "mset (map Prefix (groupByPattern objs name re)) =
   mset (map fst (foldl (groupStep name re) [] objs))"
proof -
  let ?m = "foldl (groupStep name re) [] objs"
  have inv: "groupsOf (matchKey re) (\<lambda>k. k) name objs ?m"
    unfolding groupStep_groupingStep by (rule groupsOf_foldl)
  have "map Prefix (map snd ?m) = map fst ?m"
    by (simp add: groupsOf_values [OF inv] comp_def groupOf_def)
  moreover have "mset (map Prefix (groupByPattern objs name re)) = mset (map Prefix (map snd ?m))"
    by (simp add: groupByPattern_def multiset.map_comp)
  ultimately show ?thesis by (simp only:)
qed

lemma groupByPattern_sorted:
  "sorted_wrt (<) (map Prefix (groupByPattern objs name re))"
proof -
  let ?m = "foldl (groupStep name re) [] objs"
  have "groupsOf (matchKey re) (\<lambda>k. k) name objs ?m"
    unfolding groupStep_groupingStep by (rule groupsOf_foldl)
  then have "distinct (map fst ?m)" by (simp add: groupsOf_def)
  then have "distinct (map Prefix (groupByPattern objs name re))"
    using groupByPattern_prefixes [of objs name re] by (metis mset_eq_imp_distinct_iff)
  moreover have "sorted (map Prefix (groupByPattern objs name re))"
    by (simp add: groupByPattern_def)
  ultimately show ?thesis by (simp add: strict_sorted_iff)
qed

lemma groupByPattern_set:
  "set (groupByPattern objs name re) =
   (\<lambda>s. groupOf name s (membersOf (matchKey re) s objs)) ` {s. membersOf (matchKey re) s objs \<noteq> []}"
proof -
  let ?m = "foldl (groupStep name re) [] objs"
  have inv: "groupsOf (matchKey re) (\<lambda>k. k) name objs ?m"
    unfolding groupStep_groupingStep by (rule groupsOf_foldl)
  have "set (groupByPattern objs name re) = set (map snd ?m)"
    by (simp add: groupByPattern_def)
  also have "\<dots> = (\<lambda>s. groupOf name s (membersOf (matchKey re) s objs)) ` set (map fst ?m)"
    by (simp add: groupsOf_values [OF inv] image_comp comp_def)
  finally show ?thesis by (simp only: groupsOf_keys [OF inv])
qed

lemma groupByPattern_empty:
  "groupByPattern objs name re = [] \<longleftrightarrow> matched re objs = []"
proof -
  have "groupByPattern objs name re = [] \<longleftrightarrow> (\<forall>s. membersOf (matchKey re) s objs = [])"
    using groupByPattern_set [of objs name re] by (auto simp add: set_empty [symmetric] simp del: set_empty)
  also have "\<dots> \<longleftrightarrow> matched re objs = []"
  proof
    assume none: "\<forall>s. membersOf (matchKey re) s objs = []"
    have "FindString re (Key obj) = None" if "obj \<in> set objs" for obj
    proof (cases "FindString re (Key obj)")
      case (Some s)
      with that have "obj \<in> set (membersOf (matchKey re) s objs)"
        by (simp add: membersOf_def matchKey_def)
      with none show ?thesis by simp
    qed simp
    then show "matched re objs = []" by (simp add: matched_def filter_empty_conv)
  next
    assume "matched re objs = []"
    then show "\<forall>s. membersOf (matchKey re) s objs = []"
      by (auto simp add: membersOf_def matched_def matchKey_def filter_empty_conv)
  qed
  finally show ?thesis .
qed

lemma groupByPattern_pattern:
  "p \<in> set (groupByPattern objs name re) \<Longrightarrow> Pattern p = name"
  by (auto simp add: groupByPattern_set groupOf_def)

subsection \<open>The regular expressions and the sorting\<close>

lemma matchHere_iff:
  "matchHere re s \<longleftrightarrow> length re \<le> length s \<and> list_all2 atomMatches re (take (length re) s)"
proof (induction re arbitrary: s)
  case Nil
  show ?case by simp
next
  case (Cons a re)
  then show ?case by (cases s) auto
qed

lemma FindString_Some_iff:
  "FindString re s = Some w \<longleftrightarrow>
   (\<exists>n\<le>length s. matchHere re (drop n s) \<and> (\<forall>k<n. \<not> matchHere re (drop k s)) \<and>
      w = take (length re) (drop n s))"
proof (induction s)
  case Nil
  show ?case by (cases re) auto
next
  case (Cons c s)
  show ?case
  proof (cases "matchHere re (c # s)")
    case True
    have "(\<exists>n\<le>length (c # s). matchHere re (drop n (c # s)) \<and>
            (\<forall>k<n. \<not> matchHere re (drop k (c # s))) \<and> w = take (length re) (drop n (c # s)))
          \<longleftrightarrow> w = take (length re) (c # s)"
    proof
      assume "\<exists>n\<le>length (c # s). matchHere re (drop n (c # s)) \<and>
            (\<forall>k<n. \<not> matchHere re (drop k (c # s))) \<and> w = take (length re) (drop n (c # s))"
      then obtain n where n: "\<forall>k<n. \<not> matchHere re (drop k (c # s))"
        and w: "w = take (length re) (drop n (c # s))" by blast
      have "n = 0"
      proof (rule ccontr)
        assume "n \<noteq> 0"
        then have "0 < n" by simp
        with n have "\<not> matchHere re (drop 0 (c # s))" by blast
        with True show False by simp
      qed
      with w show "w = take (length re) (c # s)" by simp
    next
      assume "w = take (length re) (c # s)"
      with True have "0 \<le> length (c # s) \<and> matchHere re (drop 0 (c # s)) \<and>
            (\<forall>k<0. \<not> matchHere re (drop k (c # s))) \<and> w = take (length re) (drop 0 (c # s))"
        by simp
      then show "\<exists>n\<le>length (c # s). matchHere re (drop n (c # s)) \<and>
            (\<forall>k<n. \<not> matchHere re (drop k (c # s))) \<and> w = take (length re) (drop n (c # s))"
        by blast
    qed
    with True show ?thesis by auto
  next
    case False
    have "(\<exists>n\<le>length (c # s). matchHere re (drop n (c # s)) \<and>
            (\<forall>k<n. \<not> matchHere re (drop k (c # s))) \<and> w = take (length re) (drop n (c # s)))
          \<longleftrightarrow> (\<exists>n\<le>length s. matchHere re (drop n s) \<and>
            (\<forall>k<n. \<not> matchHere re (drop k s)) \<and> w = take (length re) (drop n s))"
      (is "?L \<longleftrightarrow> ?R")
    proof
      assume ?L
      then obtain n where n: "n \<le> length (c # s)" "matchHere re (drop n (c # s))"
        "\<forall>k<n. \<not> matchHere re (drop k (c # s))" "w = take (length re) (drop n (c # s))"
        by blast
      from n(2) False obtain m where m: "n = Suc m" by (cases n) auto
      have "\<not> matchHere re (drop k s)" if "k < m" for k
        using n(3) that m by (auto dest: spec [of _ "Suc k"])
      with n m show ?R by auto
    next
      assume ?R
      then obtain m where m: "m \<le> length s" "matchHere re (drop m s)"
        "\<forall>k<m. \<not> matchHere re (drop k s)" "w = take (length re) (drop m s)"
        by blast
      have "\<not> matchHere re (drop k (c # s))" if "k < Suc m" for k
        using that m(3) False by (cases k) auto
      with m have "Suc m \<le> length (c # s) \<and> matchHere re (drop (Suc m) (c # s)) \<and>
            (\<forall>k<Suc m. \<not> matchHere re (drop k (c # s))) \<and>
            w = take (length re) (drop (Suc m) (c # s))"
        by simp
      then show ?L by blast
    qed
    with False Cons show ?thesis by simp
  qed
qed

lemma filter_key_singleton:
  assumes "distinct (map f xs)" and "k \<in> set xs"
  shows "filter (\<lambda>x. f k = f x) xs = [k]"
  using assms
proof (induction xs)
  case Nil
  then show ?case by simp
next
  case (Cons x xs)
  show ?case
  proof (cases "k = x")
    case True
    with Cons.prems have "f x \<notin> f ` set xs" by simp
    then have "filter (\<lambda>y. f x = f y) xs = []" by (auto simp add: filter_empty_conv)
    with True show ?thesis by simp
  next
    case False
    with Cons.prems have mem: "k \<in> set xs" by simp
    from Cons.prems have notin: "f x \<notin> f ` set xs" and rest: "distinct (map f xs)" by simp_all
    from mem have "f k \<in> f ` set xs" by (rule imageI)
    with notin have neq: "f k \<noteq> f x" by metis
    from Cons.IH [OF rest mem] neq show ?thesis by simp
  qed
qed

lemma groupByPattern_unique:
  assumes perm: "mset ps = mset (map snd (foldl (groupStep name re) [] objs))"
    and ordered: "sortedBy (\<lambda>p q. Prefix p < Prefix q) ps"
  shows "ps = groupByPattern objs name re"
proof -
  let ?xs = "map snd (foldl (groupStep name re) [] objs)"
  have inv: "groupsOf (matchKey re) (\<lambda>k. k) name objs (foldl (groupStep name re) [] objs)"
    unfolding groupStep_groupingStep by (rule groupsOf_foldl)
  have "map Prefix ?xs = map fst (foldl (groupStep name re) [] objs)"
    by (simp add: groupsOf_values [OF inv] comp_def groupOf_def)
  moreover have "distinct (map fst (foldl (groupStep name re) [] objs))"
    using inv by (simp add: groupsOf_def)
  ultimately have dxs: "distinct (map Prefix ?xs)" by (simp only:)
  have "mset (map Prefix ps) = mset (map Prefix ?xs)" using perm by (metis mset_map)
  with dxs have dps: "distinct (map Prefix ps)" by (metis mset_eq_imp_distinct_iff)
  have sets: "set ps = set ?xs" using perm by (rule mset_eq_setD)
  have sorted: "sorted (map Prefix ps)"
    using ordered by (simp add: sortedBy_def sorted_map not_less)
  have "sort_key Prefix ?xs = ps"
  proof (rule properties_for_sort_key [OF perm _ sorted])
    fix k assume k: "k \<in> set ps"
    then have "filter (\<lambda>x. Prefix k = Prefix x) ps = [k]"
      using dps by (intro filter_key_singleton)
    moreover from k sets have "filter (\<lambda>x. Prefix k = Prefix x) ?xs = [k]"
      using dxs by (intro filter_key_singleton) simp_all
    ultimately show "filter (\<lambda>x. Prefix k = Prefix x) ps = filter (\<lambda>x. Prefix k = Prefix x) ?xs"
      by simp
  qed
  then show ?thesis by (simp add: groupByPattern_def)
qed

subsection \<open>Date patterns\<close>

lemma coverage_half_iff:
  "coverage re objs > 1 / 2 \<longleftrightarrow> 2 * length (matched re objs) > length objs"
proof (cases "length objs = 0")
  case True
  then show ?thesis by (simp add: coverage_def matched_def)
next
  case False
  then have pos: "0 < real (length objs)" by simp
  have "coverage re objs > 1 / 2 \<longleftrightarrow> real (length objs) < 2 * real (length (matched re objs))"
    unfolding coverage_def using pos by (simp add: field_simps)
  also have "\<dots> \<longleftrightarrow> real (length objs) < real (2 * length (matched re objs))" by simp
  also have "\<dots> \<longleftrightarrow> length objs < 2 * length (matched re objs)" by (simp only: of_nat_less_iff)
  finally show ?thesis .
qed

lemma coversMajority_coverage:
  "coversMajority (int (length (matched re objs))) (length objs) \<longleftrightarrow> coverage re objs > 1 / 2"
  by (simp add: coversMajority_def coverage_def)

lemma accepted_iff:
  "length (groupByPattern objs name re) > 0 \<and>
   coversMajority (foldl (\<lambda>total p. total + ObjectCount p) 0 (groupByPattern objs name re))
     (length objs)
   \<longleftrightarrow> coverage re objs > 1 / 2"
proof -
  have "groupByPattern objs name re \<noteq> []" if "coverage re objs > 1 / 2"
  proof -
    from that have "2 * length (matched re objs) > length objs" by (simp only: coverage_half_iff)
    then have "matched re objs \<noteq> []" by auto
    then show ?thesis by (simp add: groupByPattern_empty)
  qed
  then show ?thesis
    by (auto simp add: groupByPattern_total coversMajority_coverage)
qed

lemma tryPatterns_find:
  "tryPatterns objs pats =
     (case find (\<lambda>(name, re). coverage re objs > 1 / 2) pats of
        None \<Rightarrow> []
      | Some (name, re) \<Rightarrow> groupByPattern objs name re)"
proof (induction pats)
  case Nil
  show ?case by simp
next
  case (Cons pat pats)
  obtain name re where pat: "pat = (name, re)" by (cases pat)
  show ?case
    unfolding pat using Cons.IH accepted_iff [of objs name re]
    by (simp add: Let_def del: One_nat_def)
qed

lemma detectDatePartitions_accepted:
  assumes "p \<in> set (detectDatePartitions objs)"
  shows "\<exists>re. (Pattern p, re) \<in> set datePatterns \<and> coverage re objs > 1 / 2 \<and>
              detectDatePartitions objs = groupByPattern objs (Pattern p) re"
proof (cases "find (\<lambda>(name, re). coverage re objs > 1 / 2) datePatterns")
  case None
  with assms show ?thesis by (simp add: detectDatePartitions_def tryPatterns_find)
next
  case (Some pat)
  obtain name re where pat: "pat = (name, re)" by (cases pat)
  from Some pat have in_list: "(name, re) \<in> set datePatterns" and cov: "coverage re objs > 1 / 2"
    by (auto simp add: find_Some_iff in_set_conv_nth)
  from Some pat have res: "detectDatePartitions objs = groupByPattern objs name re"
    by (simp add: detectDatePartitions_def tryPatterns_find)
  with assms have "Pattern p = name" by (simp add: groupByPattern_pattern)
  with in_list cov res show ?thesis by auto
qed

lemma datePatterns_names:
  "map fst datePatterns =
     [''year=YYYY/month=MM/day=DD'', ''year=YYYY/month=MM'', ''YYYY/MM/DD'', ''YYYY/MM'',
      ''YYYY-MM-DD'', ''dt=YYYY-MM-DD'']"
  by (simp add: datePatterns_def)

lemma datePatterns_distinct: "distinct (map fst datePatterns)"
  by (simp add: datePatterns_names)

lemma rejected_pattern_absent:
  assumes "(name, re) \<in> set datePatterns" and "\<not> coverage re objs > 1 / 2"
    and "p \<in> set (detectDatePartitions objs)"
  shows "Pattern p \<noteq> name"
proof
  assume "Pattern p = name"
  with detectDatePartitions_accepted [OF assms(3)] obtain re' where
    "(name, re') \<in> set datePatterns" and "coverage re' objs > 1 / 2" by auto
  with assms(1) datePatterns_distinct have "re' = re" by (meson eq_key_imp_eq_value)
  with \<open>coverage re' objs > 1 / 2\<close> assms(2) show False by simp
qed

lemma coversMajority_code [code]:
  "coversMajority t n = (n \<noteq> 0 \<and> int n < 2 * t)"
proof (cases "n = 0")
  case True
  then show ?thesis by (simp add: coversMajority_def)
next
  case False
  then have "0 < real n" by simp
  then have "coversMajority t n \<longleftrightarrow> real n < 2 * real_of_int t"
    by (simp add: coversMajority_def field_simps)
  also have "\<dots> \<longleftrightarrow> real_of_int (int n) < real_of_int (2 * t)" by simp
  also have "\<dots> \<longleftrightarrow> int n < 2 * t" by (simp only: of_int_less_iff)
  finally show ?thesis using False by simp
qed

lemma detectDatePartitions_Nil: "detectDatePartitions [] = []"
  by code_simp

text \<open>
  C1: the six patterns are tried in the order of their list. \<open>detectDatePartitions\<close>
  returns the groups of the first pattern whose coverage is above one half, and nothing if
  there is none; the groups of a pattern are one group for each matched text, strictly
  ascending by prefix. The coverage is above one half exactly when more than half of the
  objects are matched, so a pattern that matches exactly half of them is rejected: no
  partition returned has its name. When \<open>detectDatePartitions\<close> returns groups they are
  the result of \<open>AnalyzePartitions\<close>.
\<close>

theorem date_pattern_priority:
  "map fst datePatterns =
     [''year=YYYY/month=MM/day=DD'', ''year=YYYY/month=MM'', ''YYYY/MM/DD'', ''YYYY/MM'',
      ''YYYY-MM-DD'', ''dt=YYYY-MM-DD'']
   \<and> detectDatePartitions objs =
       (case find (\<lambda>(name, re). coverage re objs > 1 / 2) datePatterns of
          None \<Rightarrow> []
        | Some (name, re) \<Rightarrow> groupByPattern objs name re)
   \<and> sorted_wrt (<) (map Prefix (groupByPattern objs name re))
   \<and> set (groupByPattern objs name re) =
       (\<lambda>s. groupOf name s (membersOf (matchKey re) s objs)) `
         {s. membersOf (matchKey re) s objs \<noteq> []}
   \<and> (coverage re objs > 1 / 2 \<longleftrightarrow> 2 * length (matched re objs) > length objs)
   \<and> ((name, re) \<in> set datePatterns \<and> 2 * length (matched re objs) = length objs
        \<longrightarrow> (\<forall>p\<in>set (detectDatePartitions objs). Pattern p \<noteq> name))
   \<and> (detectDatePartitions objs \<noteq> []
        \<longrightarrow> (AnalyzePartitions objs result \<longleftrightarrow> result = detectDatePartitions objs))"
proof -
  have find: "detectDatePartitions objs =
       (case find (\<lambda>(name, re). coverage re objs > 1 / 2) datePatterns of
          None \<Rightarrow> []
        | Some (name, re) \<Rightarrow> groupByPattern objs name re)"
    by (simp add: detectDatePartitions_def tryPatterns_find)
  have half: "\<forall>p\<in>set (detectDatePartitions objs). Pattern p \<noteq> name"
    if "(name, re) \<in> set datePatterns" "2 * length (matched re objs) = length objs"
  proof -
    from that(2) have "\<not> coverage re objs > 1 / 2" unfolding coverage_half_iff by simp
    with that(1) show ?thesis using rejected_pattern_absent [of name re objs] by blast
  qed
  have analyze: "AnalyzePartitions objs result \<longleftrightarrow> result = detectDatePartitions objs"
    if "detectDatePartitions objs \<noteq> []"
  proof -
    have "objs \<noteq> []"
    proof
      assume "objs = []"
      then have "detectDatePartitions objs = []"
        by (simp add: detectDatePartitions_Nil)
      with that show False by simp
    qed
    with that show ?thesis by (simp add: AnalyzePartitions_def Let_def)
  qed
  from datePatterns_names find groupByPattern_sorted [of objs name re]
    groupByPattern_set [of objs name re] coverage_half_iff [of re objs] half analyze
  show ?thesis by blast
qed

theorem date_pattern_priority_witness:
  "(''YYYY/MM/DD'', ymdSlashRegex) \<in> set datePatterns
   \<and> 2 * length (matched ymdSlashRegex halfExample) = length halfExample
   \<and> list_all (\<lambda>p. Pattern p \<noteq> ''YYYY/MM/DD'') (detectDatePartitions halfExample)
   \<and> detectDatePartitions priorityExample =
       [\<lparr>Prefix = ''year=2023/month=01/day=15'', Pattern = ''year=YYYY/month=MM/day=DD'',
         ObjectCount = 1, TotalSize = 10, Examples = [''year=2023/month=01/day=15/a.json'']\<rparr>,
        \<lparr>Prefix = ''year=2023/month=01/day=16'', Pattern = ''year=YYYY/month=MM/day=DD'',
         ObjectCount = 2, TotalSize = 50,
         Examples = [''year=2023/month=01/day=16/b.json'', ''year=2023/month=01/day=16/c.json'']\<rparr>]
   \<and> AnalyzePartitions priorityExample (detectDatePartitions priorityExample)"
proof -
  have member: "(''YYYY/MM/DD'', ymdSlashRegex) \<in> set datePatterns"
    by (simp add: datePatterns_def ymdSlashRegex_def)
  have half: "2 * length (matched ymdSlashRegex halfExample) = length halfExample"
    by code_simp
  have "\<forall>p\<in>set (detectDatePartitions halfExample). Pattern p \<noteq> ''YYYY/MM/DD''"
    using date_pattern_priority [of halfExample "''YYYY/MM/DD''" ymdSlashRegex] member half
    by blast
  then have rejected: "list_all (\<lambda>p. Pattern p \<noteq> ''YYYY/MM/DD'') (detectDatePartitions halfExample)"
    by (simp add: list_all_iff)
  have result: "detectDatePartitions priorityExample =
       [\<lparr>Prefix = ''year=2023/month=01/day=15'', Pattern = ''year=YYYY/month=MM/day=DD'',
         ObjectCount = 1, TotalSize = 10, Examples = [''year=2023/month=01/day=15/a.json'']\<rparr>,
        \<lparr>Prefix = ''year=2023/month=01/day=16'', Pattern = ''year=YYYY/month=MM/day=DD'',
         ObjectCount = 2, TotalSize = 50,
         Examples = [''year=2023/month=01/day=16/b.json'', ''year=2023/month=01/day=16/c.json'']\<rparr>]"
    by code_simp
  then have "detectDatePartitions priorityExample \<noteq> []" by simp
  then have "AnalyzePartitions priorityExample (detectDatePartitions priorityExample)"
    using date_pattern_priority [of priorityExample _ _ "detectDatePartitions priorityExample"]
    by blast
  with member half rejected result show ?thesis by simp
qed

lemma matchHere_append:
  "matchHere (p @ q) s \<Longrightarrow> matchHere q (drop (length p) s)"
proof (induction p arbitrary: s)
  case Nil
  then show ?case by simp
next
  case (Cons a p)
  then show ?case by (cases s) simp_all
qed

lemma FindString_None_iff:
  "FindString re s = None \<longleftrightarrow> (\<forall>n\<le>length s. \<not> matchHere re (drop n s))"
proof (induction s)
  case Nil
  show ?case by simp
next
  case (Cons c s)
  have "(\<forall>n\<le>length (c # s). \<not> matchHere re (drop n (c # s))) \<longleftrightarrow>
        \<not> matchHere re (c # s) \<and> (\<forall>n\<le>length s. \<not> matchHere re (drop n s))"
  proof
    assume all: "\<forall>n\<le>length (c # s). \<not> matchHere re (drop n (c # s))"
    then have "\<not> matchHere re (drop 0 (c # s))" by blast
    moreover have "\<not> matchHere re (drop n s)" if "n \<le> length s" for n
      using all that by (auto dest: spec [of _ "Suc n"])
    ultimately show "\<not> matchHere re (c # s) \<and> (\<forall>n\<le>length s. \<not> matchHere re (drop n s))"
      by simp
  next
    assume rhs: "\<not> matchHere re (c # s) \<and> (\<forall>n\<le>length s. \<not> matchHere re (drop n s))"
    show "\<forall>n\<le>length (c # s). \<not> matchHere re (drop n (c # s))"
    proof (intro allI impI)
      fix n assume "n \<le> length (c # s)"
      with rhs show "\<not> matchHere re (drop n (c # s))" by (cases n) simp_all
    qed
  qed
  with Cons show ?case by simp
qed

lemma FindString_suffix:
  assumes "FindString (p @ q) s \<noteq> None"
  shows "FindString q s \<noteq> None"
proof -
  from assms obtain n where n: "n \<le> length s" and m: "matchHere (p @ q) (drop n s)"
    by (auto simp add: FindString_None_iff)
  from m have q: "matchHere q (drop (length p + n) s)"
    using matchHere_append [of p q "drop n s"] by simp
  let ?k = "min (length p + n) (length s)"
  have "drop ?k s = drop (length p + n) s" by (simp add: min_def)
  with q have "?k \<le> length s \<and> matchHere q (drop ?k s)" by simp
  then show ?thesis unfolding FindString_None_iff by blast
qed

lemma dtRegex_ymdDashRegex: "dtRegex = lits ''dt='' @ ymdDashRegex"
  by (simp add: dtRegex_def ymdDashRegex_def)

lemma length_filter_mono:
  assumes "\<And>x. P x \<Longrightarrow> Q x"
  shows "length (filter P xs) \<le> length (filter Q xs)"
  using assms by (induction xs) auto

lemma matched_dt_subset:
  "length (matched dtRegex objs) \<le> length (matched ymdDashRegex objs)"
  unfolding matched_def dtRegex_ymdDashRegex
  by (rule length_filter_mono) (rule FindString_suffix)

lemma coverage_dt_le: "coverage dtRegex objs \<le> coverage ymdDashRegex objs"
  unfolding coverage_def using matched_dt_subset [of objs]
  by (simp add: divide_right_mono)

lemma find_append_first:
  assumes "\<exists>x\<in>set xs. P x"
  shows "\<exists>x\<in>set xs. find P (xs @ ys) = Some x"
  using assms by (induction xs) auto

lemma datePatterns_split:
  "datePatterns =
     [(''year=YYYY/month=MM/day=DD'',
         lits ''year='' @ digits 4 @ lits ''/month='' @ digits 2 @ lits ''/day='' @ digits 2),
      (''year=YYYY/month=MM'', lits ''year='' @ digits 4 @ lits ''/month='' @ digits 2),
      (''YYYY/MM/DD'', digits 4 @ lits ''/'' @ digits 2 @ lits ''/'' @ digits 2),
      (''YYYY/MM'', digits 4 @ lits ''/'' @ digits 2),
      (''YYYY-MM-DD'', ymdDashRegex)] @ [(''dt=YYYY-MM-DD'', dtRegex)]"
  by (simp add: datePatterns_def ymdDashRegex_def dtRegex_def)

lemma dt_never_accepted:
  assumes "p \<in> set (detectDatePartitions objs)"
  shows "Pattern p \<noteq> ''dt=YYYY-MM-DD''"
proof
  assume dt: "Pattern p = ''dt=YYYY-MM-DD''"
  from detectDatePartitions_accepted [OF assms] dt obtain re where
    mem: "(''dt=YYYY-MM-DD'', re) \<in> set datePatterns" and cov: "coverage re objs > 1 / 2"
    by auto
  from mem have "re = dtRegex" by (auto simp add: datePatterns_split)
  with cov coverage_dt_le [of objs] have ymd: "coverage ymdDashRegex objs > 1 / 2" by simp
  let ?P = "\<lambda>(name, re). coverage re objs > 1 / 2"
  let ?first = "[(''year=YYYY/month=MM/day=DD'',
         lits ''year='' @ digits 4 @ lits ''/month='' @ digits 2 @ lits ''/day='' @ digits 2),
      (''year=YYYY/month=MM'', lits ''year='' @ digits 4 @ lits ''/month='' @ digits 2),
      (''YYYY/MM/DD'', digits 4 @ lits ''/'' @ digits 2 @ lits ''/'' @ digits 2),
      (''YYYY/MM'', digits 4 @ lits ''/'' @ digits 2),
      (''YYYY-MM-DD'', ymdDashRegex)]"
  from ymd have "\<exists>x\<in>set ?first. ?P x" by simp
  from find_append_first [OF this, of "[(''dt=YYYY-MM-DD'', dtRegex)]"]
  obtain x where x: "x \<in> set ?first" and found: "find ?P datePatterns = Some x"
    unfolding datePatterns_split by blast
  obtain name' re' where pair: "x = (name', re')" by (cases x)
  from found pair have "detectDatePartitions objs = groupByPattern objs name' re'"
    by (simp add: detectDatePartitions_def tryPatterns_find)
  with assms have "Pattern p = name'" by (simp add: groupByPattern_pattern)
  moreover from x pair have "name' \<noteq> ''dt=YYYY-MM-DD''" by auto
  ultimately show False using dt by simp
qed

subsection \<open>Hierarchical partitions\<close>

lemma Split_nonempty: "Split s c \<noteq> []"
  by (induction s) (auto split: list.splits)

lemma Split_hd: "hd (Split s c) = takeWhile (\<lambda>x. x \<noteq> c) s"
  by (induction s) (auto split: list.splits simp add: Split_nonempty)

lemma Split_length: "1 < length (Split s c) \<longleftrightarrow> c \<in> set s"
proof (induction s)
  case Nil
  show ?case by simp
next
  case (Cons x s)
  show ?case
  proof (cases "x = c")
    case True
    then show ?thesis using Split_nonempty [of s c] by (cases "Split s c") simp_all
  next
    case False
    then show ?thesis using Cons Split_nonempty [of s c] by (cases "Split s c") auto
  qed
qed

lemma prefixStep_groupingStep:
  "prefixStep = groupingStep topLevelKey (\<lambda>k. k @ ''/'') hierarchicalPattern"
  by (intro ext)
    (simp add: prefixStep_def groupingStep_def topLevelKey_def Let_def Split_length Split_hd
      del: One_nat_def)

lemma prefixMap_groupsOf:
  "groupsOf topLevelKey (\<lambda>k. k @ ''/'') hierarchicalPattern objs (prefixMap objs)"
  unfolding prefixMap_def prefixStep_groupingStep by (rule groupsOf_foldl)

lemma topLevelPrefixes_finite: "finite (topLevelPrefixes objs)"
proof -
  have "topLevelPrefixes objs = set (map fst (prefixMap objs))"
    by (simp only: topLevelPrefixes_def groupsOf_keys [OF prefixMap_groupsOf])
  then show ?thesis by (simp only: finite_set)
qed

lemma prefixMap_length: "length (prefixMap objs) = card (topLevelPrefixes objs)"
proof -
  have keys: "topLevelPrefixes objs = set (map fst (prefixMap objs))"
    by (simp only: topLevelPrefixes_def groupsOf_keys [OF prefixMap_groupsOf])
  have "distinct (map fst (prefixMap objs))"
    using prefixMap_groupsOf [of objs] by (simp add: groupsOf_def)
  then have "card (set (map fst (prefixMap objs))) = length (map fst (prefixMap objs))"
    by (rule distinct_card)
  with keys show ?thesis by simp
qed

lemma prefixMap_values:
  "mset (map snd (prefixMap objs)) =
   image_mset (hierarchicalGroup objs) (mset_set (topLevelPrefixes objs))"
proof -
  have keys: "topLevelPrefixes objs = set (map fst (prefixMap objs))"
    by (simp only: topLevelPrefixes_def groupsOf_keys [OF prefixMap_groupsOf])
  have dist: "distinct (map fst (prefixMap objs))"
    using prefixMap_groupsOf [of objs] by (simp add: groupsOf_def)
  have "map snd (prefixMap objs) = map (hierarchicalGroup objs) (map fst (prefixMap objs))"
    using groupsOf_values [OF prefixMap_groupsOf, of objs]
    by (simp add: hierarchicalGroup_def [abs_def])
  then have "mset (map snd (prefixMap objs)) =
             image_mset (hierarchicalGroup objs) (mset (map fst (prefixMap objs)))"
    by (metis mset_map)
  also have "mset (map fst (prefixMap objs)) = mset_set (set (map fst (prefixMap objs)))"
    using dist by (simp only: mset_set_set)
  finally show ?thesis by (simp only: keys)
qed

lemma detectHierarchicalPartitions_exists: "\<exists>result. detectHierarchicalPartitions objs result"
proof (cases "length (prefixMap objs) \<le> 1")
  case True
  then show ?thesis by (simp add: detectHierarchicalPartitions_def Let_def)
next
  case False
  let ?r = "rev (sort_key ObjectCount (map snd (prefixMap objs)))"
  have "mset ?r = mset (map snd (prefixMap objs))" by simp
  moreover have "sortedBy (\<lambda>p q. ObjectCount p > ObjectCount q) ?r"
  proof -
    have "sorted (map ObjectCount (sort_key ObjectCount (map snd (prefixMap objs))))"
      by (rule sorted_sort_key)
    then have "sorted_wrt (\<lambda>p q. ObjectCount p \<le> ObjectCount q)
                 (sort_key ObjectCount (map snd (prefixMap objs)))"
      by (simp only: sorted_map)
    then have "sorted_wrt (\<lambda>p q. ObjectCount q \<le> ObjectCount p) ?r"
      by (simp only: sorted_wrt_rev)
    then show ?thesis by (simp add: sortedBy_def not_less)
  qed
  ultimately have "detectHierarchicalPartitions objs ?r"
    using False by (simp add: detectHierarchicalPartitions_def Let_def)
  then show ?thesis ..
qed

lemma AnalyzePartitions_exists: "\<exists>result. AnalyzePartitions objs result"
proof -
  from detectHierarchicalPartitions_exists obtain hier where
    hier: "detectHierarchicalPartitions objs hier" ..
  let ?r = "if objs = [] then []
            else if detectDatePartitions objs = [] then hier else detectDatePartitions objs"
  have "AnalyzePartitions objs ?r" using hier by (simp add: AnalyzePartitions_def Let_def)
  then show ?thesis ..
qed

lemma no_pattern_accepted:
  assumes "\<forall>(name, re)\<in>set datePatterns. \<not> coverage re objs > 1 / 2"
  shows "detectDatePartitions objs = []"
proof -
  have "find (\<lambda>(name, re). coverage re objs > 1 / 2) datePatterns = None"
    using assms by (auto simp add: find_None_iff)
  then show ?thesis by (simp add: detectDatePartitions_def tryPatterns_find)
qed

lemma hierarchical_pattern_of_result:
  assumes "detectHierarchicalPartitions objs result" and "p \<in> set result"
  shows "Pattern p = hierarchicalPattern"
proof (cases "length (prefixMap objs) \<le> 1")
  case True
  with assms show ?thesis by (simp add: detectHierarchicalPartitions_def Let_def)
next
  case False
  with assms(1) have "mset result = mset (map snd (prefixMap objs))"
    by (simp add: detectHierarchicalPartitions_def Let_def)
  then have "set result = set (map snd (prefixMap objs))" by (rule mset_eq_setD)
  with assms(2) obtain k where "(k, p) \<in> set (prefixMap objs)" by auto
  from groupsOf_entry [OF prefixMap_groupsOf this] show ?thesis by (simp add: groupOf_def)
qed

lemma AnalyzePartitions_cases:
  assumes "AnalyzePartitions objs result"
  shows "result = [] \<or> (result = detectDatePartitions objs \<and> result \<noteq> []) \<or>
         (detectDatePartitions objs = [] \<and> detectHierarchicalPartitions objs result)"
  using assms by (auto simp add: AnalyzePartitions_def Let_def split: if_splits)

text \<open>
  C10: a key in which the expression of \<open>dt=YYYY-MM-DD\<close> matches is a key in which the
  expression of \<open>YYYY-MM-DD\<close> matches, so the coverage of the former is at most the
  coverage of the latter, which is tried before it; no partition that \<open>AnalyzePartitions\<close>
  returns has the pattern name \<open>dt=YYYY-MM-DD\<close>.
\<close>

theorem dt_pattern_unreachable:
  "datePatterns ! 4 = (''YYYY-MM-DD'', ymdDashRegex)
   \<and> datePatterns ! 5 = (''dt=YYYY-MM-DD'', dtRegex)
   \<and> (FindString dtRegex key \<noteq> None \<longrightarrow> FindString ymdDashRegex key \<noteq> None)
   \<and> coverage dtRegex objs \<le> coverage ymdDashRegex objs
   \<and> (AnalyzePartitions objs result \<longrightarrow> (\<forall>p\<in>set result. Pattern p \<noteq> ''dt=YYYY-MM-DD''))"
proof -
  have order: "datePatterns ! 4 = (''YYYY-MM-DD'', ymdDashRegex)"
    "datePatterns ! 5 = (''dt=YYYY-MM-DD'', dtRegex)"
    by (simp_all add: datePatterns_def ymdDashRegex_def dtRegex_def)
  have keys: "FindString ymdDashRegex key \<noteq> None" if "FindString dtRegex key \<noteq> None"
    using that unfolding dtRegex_ymdDashRegex by (rule FindString_suffix)
  have never: "\<forall>p\<in>set result. Pattern p \<noteq> ''dt=YYYY-MM-DD''" if "AnalyzePartitions objs result"
  proof
    fix p assume p: "p \<in> set result"
    from AnalyzePartitions_cases [OF that] p
    consider "p \<in> set (detectDatePartitions objs)" | "detectHierarchicalPartitions objs result"
      by auto
    then show "Pattern p \<noteq> ''dt=YYYY-MM-DD''"
    proof cases
      case 1
      then show ?thesis by (rule dt_never_accepted)
    next
      case 2
      from hierarchical_pattern_of_result [OF this p] show ?thesis
        by (simp add: hierarchicalPattern_def)
    qed
  qed
  from order keys coverage_dt_le [of objs] never show ?thesis by blast
qed

theorem dt_pattern_unreachable_witness:
  "2 * length (matched dtRegex dtExample) > length dtExample
   \<and> AnalyzePartitions dtExample (detectDatePartitions dtExample)
   \<and> map Pattern (detectDatePartitions dtExample) = [''YYYY-MM-DD'', ''YYYY-MM-DD'']
   \<and> list_all (\<lambda>p. Pattern p \<noteq> ''dt=YYYY-MM-DD'') (detectDatePartitions dtExample)"
proof -
  have cover: "2 * length (matched dtRegex dtExample) > length dtExample" by code_simp
  have names: "map Pattern (detectDatePartitions dtExample) = [''YYYY-MM-DD'', ''YYYY-MM-DD'']"
    by code_simp
  then have "detectDatePartitions dtExample \<noteq> []" by auto
  moreover have "dtExample \<noteq> []" by (simp add: dtExample_def)
  ultimately have run: "AnalyzePartitions dtExample (detectDatePartitions dtExample)"
    by (simp add: AnalyzePartitions_def Let_def)
  with dt_pattern_unreachable [of _ dtExample "detectDatePartitions dtExample"]
  have "\<forall>p\<in>set (detectDatePartitions dtExample). Pattern p \<noteq> ''dt=YYYY-MM-DD''" by blast
  then have "list_all (\<lambda>p. Pattern p \<noteq> ''dt=YYYY-MM-DD'') (detectDatePartitions dtExample)"
    by (simp add: list_all_iff)
  with cover run names show ?thesis by simp
qed

lemma topLevelPrefixes_keys:
  "topLevelPrefixes objs =
     {takeWhile (\<lambda>c. c \<noteq> CHR ''/'') (Key obj) | obj. obj \<in> set objs \<and> CHR ''/'' \<in> set (Key obj)}"
proof -
  have "membersOf topLevelKey k objs \<noteq> [] \<longleftrightarrow>
        (\<exists>obj. k = takeWhile (\<lambda>c. c \<noteq> CHR ''/'') (Key obj) \<and> obj \<in> set objs \<and>
               CHR ''/'' \<in> set (Key obj))" for k
    by (auto simp add: membersOf_def topLevelKey_def filter_empty_conv)
  then show ?thesis by (simp add: topLevelPrefixes_def)
qed

lemma hierarchicalGroup_fields:
  "hierarchicalGroup objs k =
     \<lparr>Prefix = k @ ''/'', Pattern = ''hierarchical (top-level prefix)'',
      ObjectCount = int (length (membersOf topLevelKey k objs)),
      TotalSize = sum_list (map Size (membersOf topLevelKey k objs)),
      Examples = take 3 (map Key (membersOf topLevelKey k objs))\<rparr>"
  by (simp add: hierarchicalGroup_def groupOf_def hierarchicalPattern_def)

lemma membersOf_topLevelKey:
  "membersOf topLevelKey k objs =
     filter (\<lambda>obj. CHR ''/'' \<in> set (Key obj) \<and> takeWhile (\<lambda>c. c \<noteq> CHR ''/'') (Key obj) = k) objs"
  unfolding membersOf_def by (rule filter_cong) (auto simp add: topLevelKey_def)

text \<open>
  C2: when no date pattern has a coverage above one half, what \<open>AnalyzePartitions\<close> may
  return is determined by the top-level prefixes, the texts before the first \<open>/\<close> of the
  keys that contain a \<open>/\<close>. With more than one such prefix the result holds one group for
  each of them (its prefix followed by \<open>/\<close>, the number, the accumulated size and the
  first three keys of its objects, in the order of the objects) and is sorted by object
  count, largest first; otherwise the result is empty. A result always exists.
\<close>

theorem hierarchical_fallback:
  "((\<forall>(name, re)\<in>set datePatterns. \<not> coverage re objs > 1 / 2) \<and> AnalyzePartitions objs result
      \<longrightarrow> (if card (topLevelPrefixes objs) > 1
           then mset result = image_mset (hierarchicalGroup objs) (mset_set (topLevelPrefixes objs))
                \<and> sorted_wrt (\<lambda>p q. ObjectCount p \<ge> ObjectCount q) result
           else result = []))
   \<and> (\<exists>result. AnalyzePartitions objs result)
   \<and> topLevelPrefixes objs =
       {takeWhile (\<lambda>c. c \<noteq> CHR ''/'') (Key obj) | obj.
          obj \<in> set objs \<and> CHR ''/'' \<in> set (Key obj)}
   \<and> membersOf topLevelKey k objs =
       filter (\<lambda>obj. CHR ''/'' \<in> set (Key obj) \<and>
                     takeWhile (\<lambda>c. c \<noteq> CHR ''/'') (Key obj) = k) objs
   \<and> hierarchicalGroup objs k =
       \<lparr>Prefix = k @ ''/'', Pattern = ''hierarchical (top-level prefix)'',
        ObjectCount = int (length (membersOf topLevelKey k objs)),
        TotalSize = sum_list (map Size (membersOf topLevelKey k objs)),
        Examples = take 3 (map Key (membersOf topLevelKey k objs))\<rparr>"
proof -
  have main: "if card (topLevelPrefixes objs) > 1
           then mset result = image_mset (hierarchicalGroup objs) (mset_set (topLevelPrefixes objs))
                \<and> sorted_wrt (\<lambda>p q. ObjectCount p \<ge> ObjectCount q) result
           else result = []"
    if none: "\<forall>(name, re)\<in>set datePatterns. \<not> coverage re objs > 1 / 2"
      and run: "AnalyzePartitions objs result"
  proof (cases "objs = []")
    case True
    then have "topLevelPrefixes objs = {}" by (simp add: topLevelPrefixes_def membersOf_def)
    moreover from True run have "result = []" by (simp add: AnalyzePartitions_def)
    ultimately show ?thesis by simp
  next
    case False
    have "detectDatePartitions objs = []" using none by (rule no_pattern_accepted)
    with False run have hier: "detectHierarchicalPartitions objs result"
      by (simp add: AnalyzePartitions_def Let_def)
    show ?thesis
    proof (cases "card (topLevelPrefixes objs) > 1")
      case True
      then have "\<not> length (prefixMap objs) \<le> 1" by (simp add: prefixMap_length)
      with hier have perm: "mset result = mset (map snd (prefixMap objs))"
        and ordered: "sortedBy (\<lambda>p q. ObjectCount p > ObjectCount q) result"
        unfolding detectHierarchicalPartitions_def Let_def by simp_all
      from perm have "mset result =
            image_mset (hierarchicalGroup objs) (mset_set (topLevelPrefixes objs))"
        by (simp only: prefixMap_values)
      moreover from ordered have "sorted_wrt (\<lambda>p q. ObjectCount p \<ge> ObjectCount q) result"
        by (simp add: sortedBy_def not_less)
      ultimately show ?thesis using True by simp
    next
      case False
      then have "length (prefixMap objs) \<le> 1" by (simp add: prefixMap_length)
      with hier have "result = []" by (simp add: detectHierarchicalPartitions_def Let_def)
      with False show ?thesis by simp
    qed
  qed
  from main AnalyzePartitions_exists [of objs] topLevelPrefixes_keys [of objs]
    membersOf_topLevelKey [of k objs] hierarchicalGroup_fields [of objs k]
  show ?thesis by blast
qed

theorem hierarchical_fallback_witness:
  "list_all (\<lambda>(name, re). \<not> 2 * length (matched re hierarchyExample) > length hierarchyExample)
     datePatterns
   \<and> AnalyzePartitions hierarchyExample hierarchyResult
   \<and> card (topLevelPrefixes hierarchyExample) = 3
   \<and> sorted_wrt (\<lambda>p q. ObjectCount p \<ge> ObjectCount q) hierarchyResult
   \<and> map Prefix hierarchyResult = [''logs/'', ''tmp/'', ''misc/'']"
proof -
  have low: "list_all (\<lambda>(name, re).
      \<not> 2 * length (matched re hierarchyExample) > length hierarchyExample) datePatterns"
    by code_simp
  then have none: "\<forall>(name, re)\<in>set datePatterns. \<not> coverage re hierarchyExample > 1 / 2"
    unfolding coverage_half_iff by (simp add: list_all_iff)
  have run: "AnalyzePartitions hierarchyExample hierarchyResult"
    by code_simp
  have "length (prefixMap hierarchyExample) = 3" by code_simp
  then have card: "card (topLevelPrefixes hierarchyExample) = 3"
    by (simp add: prefixMap_length)
  from hierarchical_fallback [of hierarchyExample hierarchyResult] none run card
  have "sorted_wrt (\<lambda>p q. ObjectCount p \<ge> ObjectCount q) hierarchyResult" by simp
  moreover have "map Prefix hierarchyResult = [''logs/'', ''tmp/'', ''misc/'']"
    by (simp add: hierarchyResult_def)
  ultimately show ?thesis using low run card by simp
qed

section \<open>The empty collection\<close>

text \<open>
  C7: for the empty collection nothing fails and every result is a zero value. Processing
  no listing entries leaves the initial summary, whose totals are 0 and which has no
  storage class; a listing service that answers with one empty page makes \<open>AnalyzeBucket\<close>
  return that summary and no objects; \<open>AnalyzeMetadata\<close> returns no file types and five
  buckets with count 0; \<open>AnalyzePartitions\<close> returns the empty list and nothing else.
\<close>

theorem empty_collection:
  "summary (processContents (initialState (initialSummary n r)) []) = initialSummary n r
   \<and> objects (processContents (initialState (initialSummary n r)) []) = []
   \<and> TotalObjects (initialSummary n r) = 0
   \<and> TotalBytes (initialSummary n r) = 0
   \<and> StorageClasses (initialSummary n r) = Map.empty
   \<and> AnalyzeBucket (\<lambda>token maxKeys. Inr emptyPage) limit (Inr created) n r =
       Some (Inr ((initialSummary n r)\<lparr>CreationDate := created\<rparr>, []))
   \<and> FileTypeStats (AnalyzeMetadata toLower []) = Map.empty
   \<and> map BucketCount (SizeDistribution (AnalyzeMetadata toLower [])) = [0, 0, 0, 0, 0]
   \<and> length (SizeDistribution (AnalyzeMetadata toLower [])) = 5
   \<and> Earliest (DateRangeOf (AnalyzeMetadata toLower [])) = zeroTime
   \<and> Latest (DateRangeOf (AnalyzeMetadata toLower [])) = zeroTime
   \<and> AnalyzePartitions [] []
   \<and> (AnalyzePartitions [] result \<longleftrightarrow> result = [])"
proof -
  have bucket: "summary (processContents (initialState (initialSummary n r)) []) = initialSummary n r"
    "objects (processContents (initialState (initialSummary n r)) []) = []"
    "TotalObjects (initialSummary n r) = 0" "TotalBytes (initialSummary n r) = 0"
    "StorageClasses (initialSummary n r) = Map.empty"
    by (simp_all add: processContents_def initialState_def initialSummary_def)
  have "listObjectsLoop (\<lambda>token maxKeys. Inr emptyPage) limit None
          (initialState ((initialSummary n r)\<lparr>CreationDate := created\<rparr>)) =
        Some (Inr (initialState ((initialSummary n r)\<lparr>CreationDate := created\<rparr>)))"
    by (subst listObjectsLoop.simps)
      (simp add: emptyPage_def ToBool_def processContents_def initialState_def Let_def)
  then have analyze: "AnalyzeBucket (\<lambda>token maxKeys. Inr emptyPage) limit (Inr created) n r =
       Some (Inr ((initialSummary n r)\<lparr>CreationDate := created\<rparr>, []))"
    by (simp add: AnalyzeBucket_def listObjects_initialState initialState_def)
  have meta: "FileTypeStats (AnalyzeMetadata toLower []) = Map.empty"
    "map BucketCount (SizeDistribution (AnalyzeMetadata toLower [])) = [0, 0, 0, 0, 0]"
    "length (SizeDistribution (AnalyzeMetadata toLower [])) = 5"
    "Earliest (DateRangeOf (AnalyzeMetadata toLower [])) = zeroTime"
    "Latest (DateRangeOf (AnalyzeMetadata toLower [])) = zeroTime"
    by (simp_all add: AnalyzeMetadata_def generateSizeDistribution_def initialBuckets_def)
  have part: "AnalyzePartitions [] []" "AnalyzePartitions [] result \<longleftrightarrow> result = []"
    by (simp_all add: AnalyzePartitions_def)
  from bucket analyze meta part show ?thesis by simp
qed

end
